theory Spec2Isabelle
  imports Main "HOL-Library.Word" "HOL-Library.Product_Lexorder" "HOL-Library.Mapping" "HOL-Library.RBT_Mapping"
begin

unbundle bit_operations_syntax

section \<open>Data model\<close>

text \<open>
  The coordinates are C++ \<open>int\<close> values, 32 bits wide, modelled as \<open>int\<close>. In
  \<open>normalize\<close>, \<open>addSpanInSeries\<close>, the merge, the dilation and the erosion the sums and
  differences of coordinates are taken in two's complement (signed overflow is undefined
  in C++; the model takes the wrap-around of the machine): \<open>int_wrap\<close> is the value of a
  sum as an \<open>int\<close>, \<open>int_succ\<close> and \<open>int_pred\<close> are \<open>x + 1\<close> and \<open>x - 1\<close> on the values of
  an \<open>int\<close>, so that \<open>INT_MAX + 1\<close> is \<open>INT_MIN\<close> and \<open>INT_MIN - 1\<close> is \<open>INT_MAX\<close>.
  Elsewhere the sums are on the integers. The area counter is kept without its
  wrap-around: a footprint of more than \<open>INT_MAX\<close> pixels has no \<open>int\<close> area.
\<close>

definition INT_MAX :: int where
  "INT_MAX = 2147483647"

definition INT_MIN :: int where
  "INT_MIN = - 2147483648"

definition int_wrap :: "int \<Rightarrow> int" where
  "int_wrap v = (v + 2147483648) mod 4294967296 - 2147483648"

definition int_succ :: "int \<Rightarrow> int" where
  "int_succ x = (if x = INT_MAX then INT_MIN else x + 1)"

definition int_pred :: "int \<Rightarrow> int" where
  "int_pred x = (if x = INT_MIN then INT_MAX else x - 1)"

text \<open>
  Modelled from the spec: \<open>Span\<close> (lsst/afw/geom/Span.h is not among the sources).
  A span is a row \<open>y\<close> and an inclusive column interval \<open>x0 .. x1\<close>; its width is
  \<open>x1 - x0 + 1\<close>; \<open>contains\<close> tests row and interval membership; the ordering is
  by \<open>y\<close>, then \<open>x0\<close>, then \<open>x1\<close>.
\<close>

datatype Span = Span (getY: int) (getX0: int) (getX1: int)

definition getWidth :: "Span \<Rightarrow> int" where
  "getWidth s = getX1 s - getX0 s + 1"

definition span_contains :: "Span \<Rightarrow> int \<Rightarrow> int \<Rightarrow> bool" where
  "span_contains s x y = (y = getY s \<and> getX0 s \<le> x \<and> x \<le> getX1 s)"

definition span_key :: "Span \<Rightarrow> int \<times> int \<times> int" where
  "span_key s = (getY s, getX0 s, getX1 s)"

text \<open>
  Modelled from the spec: \<open>Box2I\<close> (lsst/afw/geom/Box.h is not among the sources), an
  integer rectangle with inclusive corners, or the empty box. The empty box reports
  minimum \<open>(0,0)\<close> and dimensions \<open>(0,0)\<close>, hence maximum \<open>(-1,-1)\<close>.
\<close>

datatype Box2I = EmptyBox | Box int int int int

fun getMinX :: "Box2I \<Rightarrow> int" where
  "getMinX EmptyBox = 0"
| "getMinX (Box a b c d) = a"

fun getMinY :: "Box2I \<Rightarrow> int" where
  "getMinY EmptyBox = 0"
| "getMinY (Box a b c d) = b"

fun getMaxX :: "Box2I \<Rightarrow> int" where
  "getMaxX EmptyBox = - 1"
| "getMaxX (Box a b c d) = c"

fun getMaxY :: "Box2I \<Rightarrow> int" where
  "getMaxY EmptyBox = - 1"
| "getMaxY (Box a b c d) = d"

definition box_getWidth :: "Box2I \<Rightarrow> int" where
  "box_getWidth b = getMaxX b - getMinX b + 1"

definition box_getHeight :: "Box2I \<Rightarrow> int" where
  "box_getHeight b = getMaxY b - getMinY b + 1"

fun box_isEmpty :: "Box2I \<Rightarrow> bool" where
  "box_isEmpty EmptyBox = True"
| "box_isEmpty (Box a b c d) = False"

text \<open>\<open>Box2I(minimum, maximum)\<close>: the corners are exchanged where they are inverted.\<close>

definition Box2I_of_corners :: "int \<Rightarrow> int \<Rightarrow> int \<Rightarrow> int \<Rightarrow> Box2I" where
  "Box2I_of_corners xa ya xb yb = Box (min xa xb) (min ya yb) (max xa xb) (max ya yb)"

fun box_include :: "Box2I \<Rightarrow> int \<Rightarrow> int \<Rightarrow> Box2I" where
  "box_include EmptyBox px py = Box px py px py"
| "box_include (Box a b c d) px py = Box (min a px) (min b py) (max c px) (max d py)"

fun box_contains :: "Box2I \<Rightarrow> int \<Rightarrow> int \<Rightarrow> bool" where
  "box_contains EmptyBox px py = False"
| "box_contains (Box a b c d) px py = (a \<le> px \<and> px \<le> c \<and> b \<le> py \<and> py \<le> d)"

fun box_clip :: "Box2I \<Rightarrow> Box2I \<Rightarrow> Box2I" where
  "box_clip EmptyBox other = EmptyBox"
| "box_clip (Box a b c d) EmptyBox = EmptyBox"
| "box_clip (Box a b c d) (Box a' b' c' d') =
     (if min c c' < max a a' \<or> min d d' < max b b' then EmptyBox
      else Box (max a a') (max b b') (min c c') (min d d'))"

text \<open>
  Modelled from the spec: the peak catalog (lsst/afw/detection/Peak.h is not among the
  sources). Only what the span algorithms look at is kept: a schema identity and the
  ordered records with their integer position.
\<close>

record PeakCatalog =
  schema :: nat
  records :: "(int \<times> int) list"

definition minimalSchema :: nat where
  "minimalSchema = 0"

definition emptyPeaks :: "nat \<Rightarrow> PeakCatalog" where
  "emptyPeaks sch = \<lparr> schema = sch, records = [] \<rparr>"

text \<open>
  The Footprint of Footprint.cc. The process-wide id counter \<open>_fid\<close> is left out: no
  algorithm reads it.
\<close>

record Footprint =
  spans :: "Span list"
  area :: int
  bbox :: Box2I
  peaks :: PeakCatalog
  region :: Box2I
  normalized :: bool

datatype error =
  InvalidParameterError | OutOfRangeError | LengthError | UndefinedBehaviour | DoesNotReturn

section \<open>Construction and basic mutation\<close>

text \<open>\<open>Footprint(int nspan, Box2I region)\<close>.\<close>

definition Footprint_nspan :: "int \<Rightarrow> Box2I \<Rightarrow> error + Footprint" where
  "Footprint_nspan nspan reg =
     (if nspan < 0 then Inl InvalidParameterError
      else Inr \<lparr> spans = [], area = 0, bbox = EmptyBox, peaks = emptyPeaks minimalSchema,
                 region = reg, normalized = True \<rparr>)"

text \<open>The default-constructed Footprint: \<open>nspan = 0\<close> and an empty region.\<close>

definition Footprint_default :: Footprint where
  "Footprint_default =
     \<lparr> spans = [], area = 0, bbox = EmptyBox, peaks = emptyPeaks minimalSchema,
       region = EmptyBox, normalized = True \<rparr>"

text \<open>\<open>Footprint::addSpan(y, x0, x1)\<close>: exchanges the columns when \<open>x1 < x0\<close>.\<close>

definition addSpan :: "Footprint \<Rightarrow> int \<Rightarrow> int \<Rightarrow> int \<Rightarrow> Footprint" where
  "addSpan f y x0 x1 =
     (let a = (if x1 < x0 then x1 else x0); b = (if x1 < x0 then x0 else x1) in
      f \<lparr> spans := spans f @ [Span y a b],
          area := area f + getWidth (Span y a b),
          normalized := False,
          bbox := box_include (box_include (bbox f) a y) b y \<rparr>)"

text \<open>
  \<open>Footprint::addSpanInSeries(y, x0, x1)\<close>. The exception is thrown before anything is
  written, so the failing call is the value \<open>Inl\<close> and the footprint is the argument.
\<close>

definition addSpanInSeries :: "Footprint \<Rightarrow> int \<Rightarrow> int \<Rightarrow> int \<Rightarrow> error + Footprint" where
  "addSpanInSeries f y xa xb =
     (let x0 = (if xb < xa then xb else xa); x1 = (if xb < xa then xa else xb) in
      if spans f = [] then Inr ((addSpan f y x0 x1) \<lparr> normalized := True \<rparr>)
      else
        let lastspan = last (spans f) in
        if y = getY lastspan \<and> x0 = int_succ (getX1 lastspan) then
          Inr (f \<lparr> spans := butlast (spans f) @ [Span (getY lastspan) (getX0 lastspan) x1],
                   area := area f + (1 + x1 - x0),
                   bbox := box_include (bbox f) x1 y \<rparr>)
        else if \<not> (y > getY lastspan \<or> x0 > int_succ (getX1 lastspan)) then
          Inl InvalidParameterError
        else Inr ((addSpan f y x0 x1) \<lparr> normalized := True \<rparr>))"

section \<open>Normalization\<close>

text \<open>
  \<open>std::sort\<close> with \<open>compareSpanByYX\<close>: the order is total on the three fields, so every
  sorting algorithm gives the same list.
\<close>

definition sort_spans :: "Span list \<Rightarrow> Span list" where
  "sort_spans ss = sort_key span_key ss"

text \<open>
  The sweep of \<open>Footprint::normalize\<close> over the sorted spans after the first. The locals
  \<open>y\<close> and \<open>x1\<close> of the source are always written together with \<open>lspan\<close> and equal its
  row and its end column, so they are read from \<open>lspan\<close>. The result is the span list, the
  area, \<open>minX\<close>, \<open>maxX\<close> and the final \<open>y\<close>.
\<close>

fun normalize_sweep ::
  "Span \<Rightarrow> int \<Rightarrow> int \<Rightarrow> int \<Rightarrow> Span list \<Rightarrow> Span list \<times> int \<times> int \<times> int \<times> int" where
  "normalize_sweep lspan ar minX maxX [] = ([lspan], ar, minX, maxX, getY lspan)"
| "normalize_sweep lspan ar minX maxX (rspan # rest) =
     (if getY rspan = getY lspan \<and> getX0 rspan \<le> int_succ (getX1 lspan) then
        (if getX1 rspan > getX1 lspan then
           normalize_sweep (Span (getY lspan) (getX0 lspan) (getX1 rspan))
             (ar + (getX1 rspan - getX1 lspan)) minX
             (if getX1 rspan > maxX then getX1 rspan else maxX) rest
         else normalize_sweep lspan ar minX maxX rest)
      else
        (let ar' = ar + getWidth rspan;
             maxX1 = (if getY rspan = getY lspan \<and> getX1 rspan > maxX then getX1 rspan else maxX);
             minX' = (if getX0 rspan < minX then getX0 rspan else minX);
             maxX' = (if getX1 rspan > maxX1 then getX1 rspan else maxX1);
             (ss, r) = normalize_sweep rspan ar' minX' maxX' rest
         in (lspan # ss, r)))"

definition normalize :: "Footprint \<Rightarrow> Footprint" where
  "normalize f =
     (if normalized f then f
      else if spans f = [] then f \<lparr> bbox := EmptyBox, normalized := True, area := 0 \<rparr>
      else
        (case sort_spans (spans f) of
           lspan # rest \<Rightarrow>
             (let (ss, ar, minX, maxX, y) =
                    normalize_sweep lspan (getWidth lspan) (getX0 lspan) (getX1 lspan) rest
              in f \<lparr> spans := ss, area := ar,
                      bbox := Box2I_of_corners minX (getY lspan) maxX y,
                      normalized := True \<rparr>)
         | [] \<Rightarrow> f))"

section \<open>Rasters\<close>

text \<open>
  Modelled from the spec: the raster collaborator \<open>image::Image<PixelT>\<close> and
  \<open>image::Mask<MaskT>\<close> (lsst/afw/image is not among the sources): a 2D buffer with an
  origin \<open>(X0, Y0)\<close>, a width and a height, read and written at local \<open>(column, row)\<close>
  positions counted from \<open>(0, 0)\<close> whatever the origin. Unsigned pixel types are words.
  A read outside the buffer is undefined in the source; \<open>img_pix\<close> is total, and the
  theorems about pixel values keep to footprints whose passes over the mask stay inside it.
\<close>

record 'p Image =
  img_X0 :: int
  img_Y0 :: int
  img_width :: int
  img_height :: int
  img_pix :: "int \<times> int \<Rightarrow> 'p"

definition img_getBBox :: "'p Image \<Rightarrow> Box2I" where
  "img_getBBox m =
     (if img_width m \<le> 0 \<or> img_height m \<le> 0 then EmptyBox
      else Box (img_X0 m) (img_Y0 m) (img_X0 m + img_width m - 1) (img_Y0 m + img_height m - 1))"

text \<open>The pixel at a position given in the parent frame.\<close>

definition pixel_at :: "'p Image \<Rightarrow> int \<Rightarrow> int \<Rightarrow> 'p" where
  "pixel_at m x y = img_pix m (x - img_X0 m, y - img_Y0 m)"

section \<open>Intersection with a mask\<close>

text \<open>
  The leading scan of \<open>Footprint::intersectMask\<close>,
  \<open>while ((*s)->getY() < maskBBox.getMinY() && s != _spans.end()) ++s\<close>:
  the span is read before the iterator is compared with the end, so reaching the end of
  the list is a read past it.
\<close>

fun skip_leading :: "int \<Rightarrow> Span list \<Rightarrow> error + Span list" where
  "skip_leading minY [] = Inl UndefinedBehaviour"
| "skip_leading minY (s # rest) = (if getY s < minY then skip_leading minY rest else Inr (s # rest))"

text \<open>
  The pixel loop over one clipped span: \<open>x0\<close> is the start of the run being collected;
  the result is the spans emitted and the final \<open>x0\<close>.
\<close>

fun slice_span ::
  "'a::len word Image \<Rightarrow> 'a word \<Rightarrow> Box2I \<Rightarrow> int \<Rightarrow> int \<Rightarrow> int list \<Rightarrow> Span list \<times> int" where
  "slice_span msk bitmask mb y x0 [] = ([], x0)"
| "slice_span msk bitmask mb y x0 (x # xs) =
     (if img_pix msk (x - getMinX mb, y - getMinY mb) AND bitmask \<noteq> 0 then
        (if x > x0 then
           (let (ss, r) = slice_span msk bitmask mb y (x + 1) xs in (Span y x0 (x - 1) # ss, r))
         else slice_span msk bitmask mb y (x + 1) xs)
      else slice_span msk bitmask mb y x0 xs)"

text \<open>The spans one input span contributes: clipped to the mask, cut at the masked pixels.\<close>

definition mask_one_span :: "'a::len word Image \<Rightarrow> 'a word \<Rightarrow> Box2I \<Rightarrow> Span \<Rightarrow> Span list" where
  "mask_one_span msk bitmask mb s =
     (let y = getY s;
          x0 = (if getX0 s < getMinX mb then getMinX mb else getX0 s);
          x1 = (if getX1 s > getMaxX mb then getMaxX mb else getX1 s);
          (ss, x0') = slice_span msk bitmask mb y x0 [x0..x1]
      in if x0' \<le> x1 then ss @ [Span y x0' x1] else ss)"

text \<open>The main loop: stops at the first span below the mask, passes over spans beside it.\<close>

fun mask_spans :: "'a::len word Image \<Rightarrow> 'a word \<Rightarrow> Box2I \<Rightarrow> Span list \<Rightarrow> Span list" where
  "mask_spans msk bitmask mb [] = []"
| "mask_spans msk bitmask mb (s # rest) =
     (if getY s > getMaxY mb then []
      else if getX1 s < getMinX mb \<or> getX0 s > getMaxX mb then mask_spans msk bitmask mb rest
      else mask_one_span msk bitmask mb s @ mask_spans msk bitmask mb rest)"

text \<open>
  \<open>Footprint::intersectMask\<close>. \<open>maskedArea\<close> is the sum of the widths of the spans pushed
  to \<open>maskedSpans\<close>.
\<close>

definition intersectMask :: "Footprint \<Rightarrow> 'a::len word Image \<Rightarrow> 'a word \<Rightarrow> error + Footprint" where
  "intersectMask f msk bitmask =
     (let maskBBox = img_getBBox msk; f1 = normalize f in
      case skip_leading (getMinY maskBBox) (spans f1) of
        Inl e \<Rightarrow> Inl e
      | Inr ss \<Rightarrow>
          (let maskedSpans = mask_spans msk bitmask maskBBox ss in
           Inr (f1 \<lparr> area := sum_list (map getWidth maskedSpans),
                      spans := maskedSpans,
                      bbox := box_clip (bbox f1) maskBBox \<rparr>)))"

section \<open>Stamping a footprint into a mask\<close>

text \<open>The clamp of \<open>setMaskFromFootprint\<close>: each end column is forced into \<open>0 .. width - 1\<close>.\<close>

definition clamp_col :: "int \<Rightarrow> int \<Rightarrow> int" where
  "clamp_col width x = (if x < 0 then 0 else if x \<ge> width then width - 1 else x)"

text \<open>
  One span of \<open>setMaskFromFootprint\<close>. The pointer loop runs from column \<open>x0\<close> to column
  \<open>x1\<close> of the row; it is a write outside the raster when the raster has no column, and
  it never meets its end when \<open>x1 + 1 < x0\<close>.
\<close>

definition setMask_span :: "'a::len word \<Rightarrow> 'a word Image \<Rightarrow> Span \<Rightarrow> error + 'a word Image" where
  "setMask_span bitmask msk s =
     (let y = getY s - img_Y0 msk in
      if y < 0 \<or> y \<ge> img_height msk then Inr msk
      else
        let x0 = clamp_col (img_width msk) (getX0 s - img_X0 msk);
            x1 = clamp_col (img_width msk) (getX1 s - img_X0 msk)
        in if img_width msk \<le> 0 \<or> x1 + 1 < x0 then Inl UndefinedBehaviour
           else Inr (msk \<lparr> img_pix := (\<lambda>(cx, cy).
                     if cy = y \<and> x0 \<le> cx \<and> cx \<le> x1 then img_pix msk (cx, cy) OR bitmask
                     else img_pix msk (cx, cy)) \<rparr>))"

fun setMask_spans :: "'a::len word \<Rightarrow> 'a word Image \<Rightarrow> Span list \<Rightarrow> error + 'a word Image" where
  "setMask_spans bitmask msk [] = Inr msk"
| "setMask_spans bitmask msk (s # rest) =
     (case setMask_span bitmask msk s of
        Inl e \<Rightarrow> Inl e
      | Inr msk' \<Rightarrow> setMask_spans bitmask msk' rest)"

definition setMaskFromFootprint :: "'a::len word Image \<Rightarrow> Footprint \<Rightarrow> 'a word \<Rightarrow> error + 'a word Image" where
  "setMaskFromFootprint msk foot bitmask = setMask_spans bitmask msk (spans foot)"

section \<open>Inserting an id into an image\<close>

text \<open>
  One span of \<open>doInsertIntoImage\<close>: \<open>swidth\<close> pixels from column \<open>sx0\<close> of row \<open>sy0\<close>.
  The id is a \<open>uint64_t\<close>, the protected mask a \<open>long\<close>; the arithmetic is done in 64 bits
  and the result is cut to the pixel type. A negative \<open>swidth\<close> sends the pointer loop
  past its end. The ids overwritten are collected in \<open>oldIds\<close> when it is given.
\<close>

definition insert_pixel ::
  "bool \<Rightarrow> 64 word \<Rightarrow> 64 word \<Rightarrow> 'a::len word \<Rightarrow> 'a word" where
  "insert_pixel overwriteId ident msk p =
     (if overwriteId then ucast ((ucast p AND msk) + ident) else ucast (ucast p + ident))"

definition insert_span ::
  "bool \<Rightarrow> int \<Rightarrow> int \<Rightarrow> int \<Rightarrow> int \<Rightarrow> 64 word \<Rightarrow> 64 word \<Rightarrow>
   'a::len word Image \<times> 64 word set option \<Rightarrow> Span \<Rightarrow>
   error + ('a word Image \<times> 64 word set option)" where
  "insert_span overwriteId width height x0 y0 ident msk st s =
     (let idImage = fst st; oldIds = snd st; sy0 = getY s - y0 in
      if sy0 < 0 \<or> sy0 \<ge> height then Inr st
      else
        let sx0 = (if getX0 s - x0 < 0 then 0 else getX0 s - x0);
            sx1 = getX1 s - x0;
            swidth = (if sx1 \<ge> width then width - sx0 else sx1 - sx0 + 1)
        in if swidth < 0 then Inl UndefinedBehaviour
           else
             let covered = (\<lambda>(cx, cy). cy = sy0 \<and> sx0 \<le> cx \<and> cx < sx0 + swidth);
                 vals = set (map (\<lambda>cx. ucast (img_pix idImage (cx, sy0)) AND NOT msk) [sx0..sx0 + swidth - 1])
             in Inr (idImage \<lparr> img_pix := (\<lambda>c. if covered c
                                 then insert_pixel overwriteId ident msk (img_pix idImage c)
                                 else img_pix idImage c) \<rparr>,
                     (if overwriteId then map_option (\<lambda>old. old \<union> (vals - {0})) oldIds else oldIds)))"

fun insert_spans ::
  "bool \<Rightarrow> int \<Rightarrow> int \<Rightarrow> int \<Rightarrow> int \<Rightarrow> 64 word \<Rightarrow> 64 word \<Rightarrow>
   'a::len word Image \<times> 64 word set option \<Rightarrow> Span list \<Rightarrow>
   error + ('a word Image \<times> 64 word set option)" where
  "insert_spans overwriteId width height x0 y0 ident msk st [] = Inr st"
| "insert_spans overwriteId width height x0 y0 ident msk st (s # rest) =
     (case insert_span overwriteId width height x0 y0 ident msk st s of
        Inl e \<Rightarrow> Inl e
      | Inr st' \<Rightarrow> insert_spans overwriteId width height x0 y0 ident msk st' rest)"

text \<open>
  \<open>doInsertIntoImage<overwriteId>\<close>: both exceptions are thrown before the first pixel is
  written, so a failing call is the value \<open>Inl\<close> and the image is the argument.
\<close>

definition doInsertIntoImage ::
  "bool \<Rightarrow> Box2I \<Rightarrow> Span list \<Rightarrow> 'a::len word Image \<Rightarrow> 64 word \<Rightarrow> Box2I \<Rightarrow> 64 word \<Rightarrow>
   64 word set option \<Rightarrow> error + ('a word Image \<times> 64 word set option)" where
  "doInsertIntoImage overwriteId fregion fspans idImage ident reg msk oldIds =
     (let r = (if \<not> box_isEmpty reg then reg else fregion);
          height = box_getHeight r; width = box_getWidth r;
          x0 = getMinX r; y0 = getMinY r
      in if width \<noteq> img_width idImage \<or> height \<noteq> img_height idImage then Inl InvalidParameterError
         else if ident AND msk \<noteq> 0 then Inl InvalidParameterError
         else insert_spans overwriteId width height x0 y0 ident msk (idImage, oldIds) fspans)"

text \<open>\<open>Footprint::insertIntoImage(idImage, id, region)\<close>: no protected mask, no old ids.\<close>

definition insertIntoImage ::
  "Footprint \<Rightarrow> 'a::len word Image \<Rightarrow> 64 word \<Rightarrow> Box2I \<Rightarrow> error + 'a word Image" where
  "insertIntoImage f idImage ident reg =
     map_sum id fst (doInsertIntoImage False (region f) (spans f) idImage ident reg 0 None)"

text \<open>
  \<open>Footprint::insertIntoImage(idImage, id, overwriteId, mask, oldIds, region)\<close>. The largest
  value of an unsigned pixel type of \<open>LENGTH('a)\<close> bits is \<open>2 ^ LENGTH('a) - 1\<close>.
\<close>

definition insertIntoImage_overwrite ::
  "Footprint \<Rightarrow> 'a::len word Image \<Rightarrow> 64 word \<Rightarrow> bool \<Rightarrow> 64 word \<Rightarrow> 64 word set option \<Rightarrow> Box2I \<Rightarrow>
   error + ('a word Image \<times> 64 word set option)" where
  "insertIntoImage_overwrite f idImage ident overwriteId msk oldIds reg =
     (if unat ident > 2 ^ LENGTH('a) - 1 then Inl OutOfRangeError
      else if overwriteId then doInsertIntoImage True (region f) (spans f) idImage ident reg msk oldIds
      else doInsertIntoImage False (region f) (spans f) idImage ident reg msk oldIds)"

section \<open>Rectangles, copies and edge pixels\<close>


text \<open>
  The copy constructor: the spans are added again with \<open>addSpan\<close> to the copied bounding
  box, then the area and the flag are copied.
\<close>

definition Footprint_copy :: "Footprint \<Rightarrow> Footprint" where
  "Footprint_copy other =
     (fold (\<lambda>s f. addSpan f (getY s) (getX0 s) (getX1 s)) (spans other)
        \<lparr> spans = [], area = 0, bbox = bbox other, peaks = peaks other,
          region = region other, normalized = False \<rparr>)
       \<lparr> area := area other, normalized := normalized other \<rparr>"







section \<open>Merging two footprints\<close>

text \<open>
  The peaks of the merged footprint: those of the side that has any, both lists in order
  when the schemas agree, an exception when both sides have peaks of different schemas.
\<close>

definition merge_peaks :: "PeakCatalog \<Rightarrow> PeakCatalog \<Rightarrow> PeakCatalog \<Rightarrow> error + PeakCatalog" where
  "merge_peaks fresh aPeak bPeak =
     (if records aPeak = [] then
        (if records bPeak \<noteq> [] then Inr bPeak else Inr fresh)
      else if records bPeak = [] then Inr aPeak
      else if schema aPeak = schema bPeak then
        Inr \<lparr> schema = schema aPeak, records = records aPeak @ records bPeak \<rparr>
      else Inl InvalidParameterError)"

text \<open>The loops that append what is left of one side with \<open>addSpanInSeries\<close>.\<close>

fun add_all :: "Footprint \<Rightarrow> Span list \<Rightarrow> error + Footprint" where
  "add_all foot [] = Inr foot"
| "add_all foot (s # ss) =
     (case addSpanInSeries foot (getY s) (getX0 s) (getX1 s) of
        Inl e \<Rightarrow> Inl e
      | Inr foot' \<Rightarrow> add_all foot' ss)"

text \<open>
  The inner \<open>while (true)\<close> of \<open>_mergeFootprints\<close>: the run on row \<open>y\<close> ending at \<open>x1\<close>
  takes the next span of A while it continues the run, else the next span of B.
\<close>

function absorb :: "int \<Rightarrow> int \<Rightarrow> Span list \<Rightarrow> Span list \<Rightarrow> int \<times> Span list \<times> Span list" where
  "absorb y x1 aSpan bSpan =
     (if aSpan \<noteq> [] \<and> getY (hd aSpan) = y \<and> getX0 (hd aSpan) \<le> int_succ x1 then
        absorb y (max x1 (getX1 (hd aSpan))) (tl aSpan) bSpan
      else if bSpan \<noteq> [] \<and> getY (hd bSpan) = y \<and> getX0 (hd bSpan) \<le> int_succ x1 then
        absorb y (max x1 (getX1 (hd bSpan))) aSpan (tl bSpan)
      else (x1, aSpan, bSpan))"
  by pat_completeness auto
termination
  by (relation "measure (\<lambda>(y, x1, aSpan, bSpan). length aSpan + length bSpan)")
     (auto simp: neq_Nil_conv)

text \<open>One side is exhausted: the rest of A, then the rest of B.\<close>

definition add_remaining :: "Footprint \<Rightarrow> Span list \<Rightarrow> Span list \<Rightarrow> error + Footprint" where
  "add_remaining foot aSpan bSpan =
     (case add_all foot aSpan of Inl e \<Rightarrow> Inl e | Inr foot' \<Rightarrow> add_all foot' bSpan)"

lemma absorb_length:
  "absorb y x1 aSpan bSpan = (x1', aSpan', bSpan') \<Longrightarrow>
   length aSpan' \<le> length aSpan \<and> length bSpan' \<le> length bSpan"
proof (induction y x1 aSpan bSpan rule: absorb.induct)
  case (1 y x1 aSpan bSpan)
  show ?case
  proof (cases "aSpan \<noteq> [] \<and> getY (hd aSpan) = y \<and> getX0 (hd aSpan) \<le> int_succ x1")
    case True
    then have "absorb y (max x1 (getX1 (hd aSpan))) (tl aSpan) bSpan = (x1', aSpan', bSpan')"
      using "1.prems" by (subst (asm) absorb.simps) simp
    from "1.IH"(1)[OF True this] show ?thesis by auto
  next
    case False
    show ?thesis
    proof (cases "bSpan \<noteq> [] \<and> getY (hd bSpan) = y \<and> getX0 (hd bSpan) \<le> int_succ x1")
      case True
      then have "absorb y (max x1 (getX1 (hd bSpan))) aSpan (tl bSpan) = (x1', aSpan', bSpan')"
        using "1.prems" False by (subst (asm) absorb.simps) simp
      from "1.IH"(2)[OF False True this] show ?thesis by auto
    next
      case nb: False
      then show ?thesis using "1.prems" False by (subst (asm) absorb.simps) auto
    qed
  qed
qed

text \<open>
  The outer loop of \<open>_mergeFootprints\<close> with the two loops that follow it. The
  \<open>assert(yb == y)\<close> of the third branch holds whenever the first two tests fail.
\<close>

function merge_loop :: "Footprint \<Rightarrow> Span list \<Rightarrow> Span list \<Rightarrow> error + Footprint" where
  "merge_loop foot [] bSpan = add_remaining foot [] bSpan"
| "merge_loop foot (a # aRest) [] = add_remaining foot (a # aRest) []"
| "merge_loop foot (a # aRest) (b # bRest) =
     (let y = getY a; x0 = getX0 a; x1 = getX1 a;
          yb = getY b; xb0 = getX0 b; xb1 = getX1 b
      in if y < yb \<or> (y = yb \<and> x1 < int_pred xb0) then
           (case addSpanInSeries foot y x0 x1 of
              Inl e \<Rightarrow> Inl e
            | Inr foot' \<Rightarrow> merge_loop foot' aRest (b # bRest))
         else if yb < y \<or> (y = yb \<and> xb1 < int_pred x0) then
           (case addSpanInSeries foot yb xb0 xb1 of
              Inl e \<Rightarrow> Inl e
            | Inr foot' \<Rightarrow> merge_loop foot' (a # aRest) bRest)
         else
           (case absorb y (max x1 xb1) aRest bRest of
              (x1', aSpan, bSpan) \<Rightarrow>
                (case addSpanInSeries foot y (min x0 xb0) x1' of
                   Inl e \<Rightarrow> Inl e
                 | Inr foot' \<Rightarrow> merge_loop foot' aSpan bSpan)))"
  by pat_completeness auto
termination
proof (relation "measure (\<lambda>(foot, aSpan, bSpan). length aSpan + length bSpan)", goal_cases)
  case 1
  then show ?case by simp
next
  case (2 foot a aRest b bRest)
  then show ?case by simp
next
  case (3 foot a aRest b bRest)
  then show ?case by simp
next
  case (4 foot a aRest b bRest y x0 x1 yb xb0 xb1 x1' r aSpan bSpan foot')
  have "absorb y (max x1 xb1) aRest bRest = (x1', aSpan, bSpan)"
    using 4(9,10) by simp
  from absorb_length[OF this] show ?case by simp
qed

text \<open>\<open>_mergeFootprints\<close>: the result starts as a default-constructed footprint.\<close>

definition mergeFootprints_core :: "Footprint \<Rightarrow> Footprint \<Rightarrow> error + Footprint" where
  "mergeFootprints_core aFoot bFoot =
     (case merge_peaks (peaks Footprint_default) (peaks aFoot) (peaks bFoot) of
        Inl e \<Rightarrow> Inl e
      | Inr p \<Rightarrow> merge_loop (Footprint_default \<lparr> peaks := p \<rparr>) (spans aFoot) (spans bFoot))"

text \<open>
  \<open>mergeFootprints(Footprint&, Footprint&)\<close> normalizes both arguments, then merges;
  \<open>mergeFootprints(Footprint const&, Footprint const&)\<close> refuses arguments whose flag is
  not set.
\<close>

definition mergeFootprints :: "Footprint \<Rightarrow> Footprint \<Rightarrow> error + Footprint" where
  "mergeFootprints foot1 foot2 = mergeFootprints_core (normalize foot1) (normalize foot2)"

definition mergeFootprints_const :: "Footprint \<Rightarrow> Footprint \<Rightarrow> error + Footprint" where
  "mergeFootprints_const foot1 foot2 =
     (if \<not> normalized foot1 \<or> \<not> normalized foot2 then Inl InvalidParameterError
      else mergeFootprints_core foot1 foot2)"

section \<open>Structuring elements\<close>

text \<open>
  A structuring element: one span for each row offset, and \<open>_yRange\<close>. The constructor
  computes \<open>_yRange = 2 * radius + 1\<close> in \<open>int\<close> and calls \<open>_widths.reserve(_yRange)\<close>, which
  throws \<open>std::length_error\<close> for a negative value (the size is unsigned); otherwise the
  radius is below \<open>INT_MAX\<close> and the loop over \<open>dy\<close> ends. The diamond of radius \<open>r\<close> has
  half-width \<open>r - |dy|\<close> at offset \<open>dy\<close>; the circle has the truncated square root of
  \<open>r * r - dy * dy\<close>, computed in the source through \<open>double\<close> and here on the integers.
\<close>

record StructuringElement =
  widths :: "Span list"
  yRange :: int

datatype Shape = CIRCLE | DIAMOND

definition isqrt :: "int \<Rightarrow> int" where
  "isqrt n = int (length (filter (\<lambda>k. int k * int k \<le> n) [1..<Suc (nat n)]))"

definition StructuringElement_shape :: "Shape \<Rightarrow> int \<Rightarrow> error + StructuringElement" where
  "StructuringElement_shape shape radius =
     (let yr = int_wrap (2 * radius + 1) in
      if yr < 0 then Inl LengthError
      else Inr \<lparr> widths =
         (case shape of
            CIRCLE \<Rightarrow> map (\<lambda>dy. Span dy (- isqrt (radius * radius - dy * dy))
                                          (isqrt (radius * radius - dy * dy)))
                         [int_wrap (- radius)..radius]
          | DIAMOND \<Rightarrow> map (\<lambda>dy. let dx = int_wrap (radius - int_wrap \<bar>dy\<bar>)
                                 in Span dy (int_wrap (- dx)) dx)
                          [int_wrap (- radius)..radius]),
       yRange = yr \<rparr>)"

section \<open>Dilation\<close>

text \<open>
  A loop body that may fail, run over a list: the first failure ends the loop.
\<close>

fun fold_err :: "('a \<Rightarrow> 's \<Rightarrow> error + 's) \<Rightarrow> 'a list \<Rightarrow> 's \<Rightarrow> error + 's" where
  "fold_err f [] st = Inr st"
| "fold_err f (x # xs) st = (case f x st of Inl e \<Rightarrow> Inl e | Inr st' \<Rightarrow> fold_err f xs st')"

text \<open>
  The working set of \<open>growFootprintImpl\<close>, a \<open>std::map\<close> from the row to a \<open>std::set\<close> of
  \<open>(xmin, xmax)\<close> pairs: a mapping to sets, both read in increasing order.
\<close>

type_synonym RowMap = "(int, (int \<times> int) set) mapping"

text \<open>
  The inner \<open>while\<close> of the merge of one row: the run ending at \<open>end\<close> takes every next
  pair that starts at most one column after it.
\<close>

fun absorb_run :: "int \<Rightarrow> (int \<times> int) list \<Rightarrow> int \<times> (int \<times> int) list" where
  "absorb_run end [] = (end, [])"
| "absorb_run end (p # ps) =
     (if fst p \<le> int_succ end then absorb_run (max end (snd p)) ps else (end, p # ps))"

lemma absorb_run_length: "absorb_run end ps = (end', ps') \<Longrightarrow> length ps' \<le> length ps"
proof (induction ps arbitrary: "end")
  case Nil
  then show ?case by simp
next
  case (Cons p ps)
  show ?case
  proof (cases "fst p \<le> int_succ end")
    case True
    then have "absorb_run (max end (snd p)) ps = (end', ps')" using Cons.prems by simp
    from Cons.IH[OF this] show ?thesis by simp
  next
    case False
    then show ?thesis using Cons.prems by auto
  qed
qed

text \<open>
  The \<open>for\<close> loop that rebuilds one row. The inner \<open>while\<close> starts at the current pair and
  takes it when \<open>first \<le> second + 1\<close>, a sum that wraps around when the pair ends at
  \<open>INT_MAX\<close>. When it does not, the iterator is not advanced and
  the \<open>--span\<close> that follows steps before the current pair: before \<open>begin()\<close> for the
  first pair, and back to the same pair for ever for a later one.
\<close>

function coalesce :: "bool \<Rightarrow> (int \<times> int) list \<Rightarrow> (int \<times> int) set \<Rightarrow> error + (int \<times> int) set" where
  "coalesce atBegin [] newSpans = Inr newSpans"
| "coalesce atBegin (span # rest) newSpans =
     (if fst span \<le> int_succ (snd span) then
        (case absorb_run (snd span) rest of
           (end', rest') \<Rightarrow> coalesce False rest' (insert (fst span, end') newSpans))
      else Inl (if atBegin then UndefinedBehaviour else DoesNotReturn))"
  by pat_completeness auto
termination
proof (relation "measure (\<lambda>(atBegin, spans, newSpans). length spans)", goal_cases)
  case 1
  then show ?case by simp
next
  case (2 atBegin span rest newSpans end' rest')
  then have "absorb_run (snd span) rest = (end', rest')" by simp
  from absorb_run_length[OF this] show ?case by simp
qed

text \<open>One span of the footprint against one row of the element.\<close>

definition grow_step :: "Span \<Rightarrow> Span \<Rightarrow> RowMap \<Rightarrow> error + RowMap" where
  "grow_step s el rows =
     (let xmin = int_wrap (getX0 s + getX0 el); xmax = int_wrap (getX1 s + getX1 el);
          yval = int_wrap (getY s + getY el);
          row = insert (xmin, xmax) (Mapping.lookup_default {} rows yval)
      in case coalesce True (sorted_list_of_set row) {} of
           Inl e \<Rightarrow> Inl e
         | Inr newSpans \<Rightarrow> Inr (Mapping.update yval newSpans rows))"

text \<open>The spans of the working set in row-then-column order.\<close>

definition rows_spans :: "RowMap \<Rightarrow> Span list" where
  "rows_spans rows =
     concat (map (\<lambda>y. map (\<lambda>p. Span y (fst p) (snd p))
                         (sorted_list_of_set (Mapping.lookup_default {} rows y)))
                 (Mapping.ordered_keys rows))"

text \<open>\<open>growFootprintImpl\<close>.\<close>

definition growFootprintImpl :: "Footprint \<Rightarrow> StructuringElement \<Rightarrow> error + Footprint" where
  "growFootprintImpl foot element =
     (case Footprint_nspan 0 (region foot) of
        Inl e \<Rightarrow> Inl e
      | Inr grown \<Rightarrow>
          (case fold_err (\<lambda>s. fold_err (grow_step s) (widths element)) (spans foot) Mapping.empty of
             Inl e \<Rightarrow> Inl e
           | Inr rows \<Rightarrow>
               (case add_all grown (rows_spans rows) of
                  Inl e \<Rightarrow> Inl e
                | Inr grown' \<Rightarrow> Inr (grown' \<lparr> peaks := peaks foot \<rparr>))))"

text \<open>\<open>growFootprint(foot, nGrow, isotropic)\<close>; \<open>getNpix\<close> is the area.\<close>

definition growFootprint :: "Footprint \<Rightarrow> int \<Rightarrow> bool \<Rightarrow> error + Footprint" where
  "growFootprint foot nGrow isotropic =
     (if nGrow \<le> 0 \<or> area foot = 0 then Inr (Footprint_copy foot)
      else case StructuringElement_shape (if isotropic then CIRCLE else DIAMOND) nGrow of
             Inl e \<Rightarrow> Inl e
           | Inr element \<Rightarrow> growFootprintImpl foot element)"

section \<open>Erosion\<close>

datatype PrimaryRun = PrimaryRun (pr_m: int) (pr_y: int) (pr_xmin: int) (pr_xmax: int)

text \<open>The primary runs of one span: one for each element row no wider than the span.\<close>

definition span_runs :: "StructuringElement \<Rightarrow> Span \<Rightarrow> PrimaryRun list" where
  "span_runs element s =
     concat (map (\<lambda>(m, it).
                    if int_wrap (getX1 it - getX0 it) \<le> int_wrap (getX1 s - getX0 s)
                    then [PrimaryRun m (int_wrap (getY s - getY it)) (int_wrap (getX0 s - getX0 it))
                            (int_wrap (getX1 s - getX1 it))]
                    else [])
                 (zip [0..int (length (widths element)) - 1] (widths element)))"

text \<open>
  \<open>std::sort\<close> with \<open>comparePrimaryRun\<close>: by \<open>y\<close>, then \<open>m\<close>, then \<open>xmin\<close>. Runs that agree
  on all three keep their order here; the source leaves their order open.
\<close>

definition sort_runs :: "PrimaryRun list \<Rightarrow> PrimaryRun list" where
  "sort_runs rs = sort_key (\<lambda>r. (pr_y r, pr_m r, pr_xmin r)) rs"

text \<open>The consolidation of the runs of one \<open>m\<close>: a run that starts inside the current one
  replaces its end.\<close>

fun consolidate :: "int \<Rightarrow> int \<Rightarrow> int \<Rightarrow> int \<Rightarrow> PrimaryRun list \<Rightarrow> PrimaryRun list" where
  "consolidate m y start_x end_x [] = [PrimaryRun m y start_x end_x]"
| "consolidate m y start_x end_x (run # rest) =
     (if pr_xmin run > end_x then
        PrimaryRun m y start_x end_x # consolidate m y (pr_xmin run) (pr_xmax run) rest
      else consolidate m y start_x (pr_xmax run) rest)"

text \<open>The intersections of every good run with every candidate run.\<close>

definition intersect_runs :: "int \<Rightarrow> int \<Rightarrow> PrimaryRun list \<Rightarrow> PrimaryRun list \<Rightarrow> PrimaryRun list" where
  "intersect_runs m y goodRuns candidateRuns =
     concat (map (\<lambda>good. concat (map (\<lambda>cand.
         (let start = max (pr_xmin good) (pr_xmin cand); end = min (pr_xmax good) (pr_xmax cand)
          in if end \<ge> start then [PrimaryRun m y start end] else [])) candidateRuns)) goodRuns)"

text \<open>One value of \<open>m\<close> for the runs \<open>yRuns\<close> of row \<open>y\<close>.\<close>

definition good_step :: "PrimaryRun list \<Rightarrow> int \<Rightarrow> int \<Rightarrow> PrimaryRun list \<Rightarrow> PrimaryRun list" where
  "good_step yRuns y m goodRuns =
     (let mRange = filter (\<lambda>r. pr_m r = m) yRuns in
      if mRange = [] then []
      else
        let candidateRuns =
              consolidate m y (pr_xmin (hd mRange)) (pr_xmax (hd mRange)) (tl mRange)
        in if m = 0 then candidateRuns else intersect_runs m y goodRuns candidateRuns)"

text \<open>One row \<open>y\<close> of the erosion: the good runs are added to the footprint with \<open>addSpan\<close>.\<close>

definition shrink_row :: "StructuringElement \<Rightarrow> PrimaryRun list \<Rightarrow> int \<Rightarrow> Footprint \<Rightarrow> Footprint" where
  "shrink_row element primaryRuns y shrunk =
     (let yRuns = filter (\<lambda>r. pr_y r = y) primaryRuns in
      if int (length yRuns) < yRange element then shrunk
      else
        let goodRuns = fold (good_step yRuns y) [0..yRange element - 1] []
        in fold (\<lambda>run f. addSpan f (pr_y run) (pr_xmin run) (pr_xmax run)) goodRuns shrunk)"

text \<open>\<open>Footprint::contains\<close>: the bounding box first, then the spans.\<close>

definition footprint_contains :: "Footprint \<Rightarrow> int \<times> int \<Rightarrow> bool" where
  "footprint_contains f p =
     (box_contains (bbox f) (fst p) (snd p) \<and> list_ex (\<lambda>s. span_contains s (fst p) (snd p)) (spans f))"

text \<open>
  \<open>shrinkFootprintImpl\<close>. \<open>primaryRuns.front()\<close> on an empty vector is undefined. The
  loop \<open>for (int y = front().y; y <= back().y; ++y)\<close> does not end when the last row is
  \<open>INT_MAX\<close>. The peaks kept are those inside the shrunken footprint.
\<close>

definition shrinkFootprintImpl :: "Footprint \<Rightarrow> StructuringElement \<Rightarrow> error + Footprint" where
  "shrinkFootprintImpl foot element =
     (case Footprint_nspan 0 (region foot) of
        Inl e \<Rightarrow> Inl e
      | Inr shrunk \<Rightarrow>
          (let primaryRuns = sort_runs (concat (map (span_runs element) (spans foot))) in
           if primaryRuns = [] then Inl UndefinedBehaviour
           else if pr_y (last primaryRuns) = INT_MAX then Inl DoesNotReturn
           else
             let shrunk1 = fold (shrink_row element primaryRuns)
                             [pr_y (hd primaryRuns)..pr_y (last primaryRuns)] shrunk;
                 shrunk2 = normalize shrunk1
             in Inr (shrunk2 \<lparr> peaks := (peaks shrunk2)
                        \<lparr> records := filter (footprint_contains shrunk2) (records (peaks foot)) \<rparr> \<rparr>)))"

text \<open>\<open>shrinkFootprint(foot, nShrink, isotropic)\<close>.\<close>

definition shrinkFootprint :: "Footprint \<Rightarrow> int \<Rightarrow> bool \<Rightarrow> error + Footprint" where
  "shrinkFootprint foot nShrink isotropic =
     (case StructuringElement_shape (if isotropic then CIRCLE else DIAMOND) nShrink of
        Inl e \<Rightarrow> Inl e
      | Inr element \<Rightarrow> shrinkFootprintImpl foot element)"

section \<open>Specification vocabulary\<close>

text \<open>The pixels covered by a span list: those contained in some span.\<close>

definition pixels :: "Span list \<Rightarrow> (int \<times> int) set" where
  "pixels ss = {(x, y). \<exists>s \<in> set ss. span_contains s x y}"

text \<open>One span lies strictly before another: an earlier row, or the same row with a gap.\<close>

definition span_before :: "Span \<Rightarrow> Span \<Rightarrow> bool" where
  "span_before p n = (getY p < getY n \<or> (getY p = getY n \<and> getX1 p + 1 < getX0 n))"

definition yx_key :: "Span \<Rightarrow> int \<times> int" where
  "yx_key s = (getY s, getX0 s)"

text \<open>The tight enclosing box of a span list: empty for no spans.\<close>

definition tight_bbox :: "Span list \<Rightarrow> Box2I" where
  "tight_bbox ss =
     (if ss = [] then EmptyBox
      else Box (Min (getX0 ` set ss)) (Min (getY ` set ss)) (Max (getX1 ` set ss)) (Max (getY ` set ss)))"

text \<open>Adjacent spans that share a row neither overlap nor touch.\<close>

definition row_separated :: "Span list \<Rightarrow> bool" where
  "row_separated ss = successively (\<lambda>p n. getY p = getY n \<longrightarrow> getX1 p + 1 < getX0 n) ss"

text \<open>
  The normalization invariant of the data model: spans sorted by \<open>(y, x0, x1)\<close>, separated
  within a row, the area the sum of the widths, the bounding box tight.
\<close>

definition is_normal :: "Footprint \<Rightarrow> bool" where
  "is_normal f =
     (sorted (map span_key (spans f)) \<and> row_separated (spans f) \<and>
      area f = sum_list (map getWidth (spans f)) \<and> bbox f = tight_bbox (spans f))"

text \<open>Every span has its columns in order, as every span written by \<open>addSpan\<close> has.\<close>

definition valid_spans :: "Span list \<Rightarrow> bool" where
  "valid_spans ss = (\<forall>s \<in> set ss. getX0 s \<le> getX1 s)"

text \<open>
  The spans one clipped span contributes, from the result of its pixel loop: the spans
  emitted and the last run, when it is not empty.
\<close>

definition finish_slice :: "int \<Rightarrow> int \<Rightarrow> Span list \<times> int \<Rightarrow> Span list" where
  "finish_slice y b r = fst r @ (if snd r \<le> b then [Span y (snd r) b] else [])"

text \<open>The mask pixel read by \<open>intersectMask\<close> at a parent-frame position has no selected bit.\<close>

definition unmasked_at :: "'a::len word Image \<Rightarrow> 'a word \<Rightarrow> Box2I \<Rightarrow> int \<Rightarrow> int \<Rightarrow> bool" where
  "unmasked_at msk bitmask mb x y = (img_pix msk (x - getMinX mb, y - getMinY mb) AND bitmask = 0)"

text \<open>One span lies inside another.\<close>

definition within :: "Span \<Rightarrow> Span \<Rightarrow> bool" where
  "within r s = (getY r = getY s \<and> getX0 s \<le> getX0 r \<and> getX1 r \<le> getX1 s)"

text \<open>
  The pixels of a footprint kept by a mask: those inside the mask's bounding box whose
  mask pixel has none of the selected bits.
\<close>

definition kept_pixels :: "Footprint \<Rightarrow> 'a::len word Image \<Rightarrow> 'a word \<Rightarrow> (int \<times> int) set" where
  "kept_pixels f msk bitmask =
     {(x, y). (x, y) \<in> pixels (spans f) \<and> box_contains (img_getBBox msk) x y \<and>
              pixel_at msk x y AND bitmask = 0}"

text \<open>
  The columns of every span leave room for the sums \<open>x1 + 1\<close> and \<open>x0 - 1\<close> that the
  code computes in \<open>int\<close>.
\<close>

definition columns_inside :: "Span list \<Rightarrow> bool" where
  "columns_inside ss = (\<forall>s \<in> set ss. INT_MIN < getX0 s \<and> getX1 s < INT_MAX)"

text \<open>
  A value strictly between \<open>- 2 ^ 30\<close> and \<open>2 ^ 30\<close>: the sum and the difference of two
  such values are in the range of \<open>int\<close>.
\<close>

definition small :: "int \<Rightarrow> bool" where
  "small v = (- 1073741824 < v \<and> v < 1073741824)"

definition span_small :: "Span \<Rightarrow> bool" where
  "span_small s = (small (getX0 s) \<and> small (getX1 s) \<and> small (getY s))"

text \<open>
  Every coordinate of every span, moved by \<open>r\<close> either way, is small: the sums and
  differences of a dilation and an erosion by \<open>r\<close> stay in the range of \<open>int\<close>.
\<close>

definition within_reach :: "int \<Rightarrow> Span list \<Rightarrow> bool" where
  "within_reach r ss =
     (\<forall>s \<in> set ss. small (getX0 s - r) \<and> small (getX1 s + r) \<and>
                     small (getY s - r) \<and> small (getY s + r))"

section \<open>Edge pixels of a rectangle: vocabulary\<close>






section \<open>Merging: vocabulary\<close>

text \<open>The first span of a list continues the run on row \<open>y\<close> that ends at \<open>x1\<close>.\<close>

definition continues :: "int \<Rightarrow> int \<Rightarrow> Span list \<Rightarrow> bool" where
  "continues y x1 ss = (ss \<noteq> [] \<and> getY (hd ss) = y \<and> getX0 (hd ss) \<le> int_succ x1)"

text \<open>The first test of the outer loop: a span lies before another with a gap.\<close>

definition earlier :: "Span \<Rightarrow> Span \<Rightarrow> bool" where
  "earlier a b = (getY a < getY b \<or> (getY a = getY b \<and> getX1 a < int_pred (getX0 b)))"

text \<open>Every span of a list may be appended in series to a footprint.\<close>

definition ready :: "Footprint \<Rightarrow> Span list \<Rightarrow> bool" where
  "ready foot ss = (spans foot = [] \<or> (\<forall>s \<in> set ss. span_before (last (spans foot)) s))"

text \<open>A result with its peaks replaced.\<close>

definition with_peaks :: "PeakCatalog \<Rightarrow> error + Footprint \<Rightarrow> error + Footprint" where
  "with_peaks p r = (case r of Inl e \<Rightarrow> Inl e | Inr f \<Rightarrow> Inr (f \<lparr> peaks := p \<rparr>))"

text \<open>Both footprints have peaks, of different schemas.\<close>

definition peaks_clash :: "Footprint \<Rightarrow> Footprint \<Rightarrow> bool" where
  "peaks_clash a b =
     (records (peaks a) \<noteq> [] \<and> records (peaks b) \<noteq> [] \<and> schema (peaks a) \<noteq> schema (peaks b))"

section \<open>Dilation and erosion: vocabulary\<close>

text \<open>A set of column intervals has one that covers the columns \<open>a..b\<close>.\<close>

definition covers :: "(int \<times> int) set \<Rightarrow> int \<Rightarrow> int \<Rightarrow> bool" where
  "covers R a b = (\<exists>p \<in> R. fst p \<le> a \<and> b \<le> snd p)"

text \<open>
  The invariant of one row of the dilation: finitely many intervals, each with its ends in
  order and small, any two of them with a gap between.
\<close>

definition row_ok :: "(int \<times> int) set \<Rightarrow> bool" where
  "row_ok R =
     (finite R \<and> (\<forall>p \<in> R. fst p \<le> snd p \<and> small (fst p) \<and> small (snd p)) \<and>
      (\<forall>p \<in> R. \<forall>q \<in> R. p \<noteq> q \<longrightarrow> snd p + 1 < fst q \<or> snd q + 1 < fst p))"

text \<open>The intervals of a row of the map: none for a row that is not a key.\<close>

definition row_of :: "RowMap \<Rightarrow> int \<Rightarrow> (int \<times> int) set" where
  "row_of rows y = Mapping.lookup_default {} rows y"

definition rows_ok :: "RowMap \<Rightarrow> bool" where
  "rows_ok rows = (finite (Mapping.keys rows) \<and> (\<forall>y. row_ok (row_of rows y)) \<and>
                   (\<forall>y. y \<notin> Mapping.keys rows \<longrightarrow> row_of rows y = {}) \<and>
                   (\<forall>y \<in> Mapping.keys rows. small y))"

definition spans_small :: "Span list \<Rightarrow> bool" where
  "spans_small ss = (\<forall>s \<in> set ss. span_small s)"

text \<open>The translate of a span by an element row has small coordinates.\<close>

definition sums_small :: "Span \<Rightarrow> Span \<Rightarrow> bool" where
  "sums_small s el =
     (small (getX0 s + getX0 el) \<and> small (getX1 s + getX1 el) \<and> small (getY s + getY el))"

text \<open>The translate of span \<open>s\<close> by the element row \<open>el\<close> lies in the rows of the map.\<close>

definition dilated :: "RowMap \<Rightarrow> Span \<Rightarrow> Span \<Rightarrow> bool" where
  "dilated rows s el =
     covers (row_of rows (getY s + getY el)) (getX0 s + getX0 el) (getX1 s + getX1 el)"

text \<open>The spans of one row, in the order of the set.\<close>

definition row_list :: "int \<Rightarrow> (int \<times> int) set \<Rightarrow> Span list" where
  "row_list y R = map (\<lambda>p. Span y (fst p) (snd p)) (sorted_list_of_set R)"

text \<open>The translate of span \<open>s\<close> by the element row \<open>el\<close> lies in one span of a list.\<close>

definition grown_covers :: "Span list \<Rightarrow> Span \<Rightarrow> Span \<Rightarrow> bool" where
  "grown_covers gs s el =
     (\<exists>t \<in> set gs. getY t = getY s + getY el \<and> getX0 t \<le> getX0 s + getX0 el \<and>
                    getX1 s + getX1 el \<le> getX1 t)"

text \<open>An element row is no wider than a span, and the primary run it then gives.\<close>

definition fits :: "Span \<Rightarrow> Span \<Rightarrow> bool" where
  "fits it s = (getX1 it - getX0 it \<le> getX1 s - getX0 s)"

definition run_of :: "int \<Rightarrow> Span \<Rightarrow> Span \<Rightarrow> PrimaryRun" where
  "run_of m it s = PrimaryRun m (getY s - getY it) (getX0 s - getX0 it) (getX1 s - getX1 it)"

text \<open>The primary runs of a span list, before sorting.\<close>

definition all_runs :: "StructuringElement \<Rightarrow> Span list \<Rightarrow> PrimaryRun list" where
  "all_runs E gs = concat (map (span_runs E) gs)"

text \<open>The sort key of the primary runs: \<open>(y, m, xmin)\<close>.\<close>

definition run_key :: "PrimaryRun \<Rightarrow> int \<times> int \<times> int" where
  "run_key r = (pr_y r, pr_m r, pr_xmin r)"

text \<open>The runs of row \<open>y\<close> that come from element row \<open>m\<close>.\<close>

definition m_range :: "PrimaryRun list \<Rightarrow> int \<Rightarrow> int \<Rightarrow> PrimaryRun list" where
  "m_range P y m = filter (\<lambda>r. pr_m r = m) (filter (\<lambda>r. pr_y r = y) P)"

text \<open>Two runs span the same columns, or leave a gap.\<close>

definition same_or_apart :: "PrimaryRun \<Rightarrow> PrimaryRun \<Rightarrow> bool" where
  "same_or_apart r r' =
     ((pr_xmin r = pr_xmin r' \<and> pr_xmax r = pr_xmax r') \<or>
      pr_xmax r < pr_xmin r' \<or> pr_xmax r' < pr_xmin r)"

text \<open>A list of runs has one that covers the columns \<open>a..b\<close>.\<close>

definition holds :: "PrimaryRun list \<Rightarrow> int \<Rightarrow> int \<Rightarrow> bool" where
  "holds L a b = (\<exists>r \<in> set L. pr_xmin r \<le> a \<and> b \<le> pr_xmax r)"

text \<open>
  What the sorted primary runs satisfy when every translate of the columns \<open>a..b\<close> of row
  \<open>y\<close> by one of the \<open>n\<close> element rows lies in the footprint.
\<close>

definition run_facts :: "PrimaryRun list \<Rightarrow> nat \<Rightarrow> int \<Rightarrow> int \<Rightarrow> int \<Rightarrow> bool" where
  "run_facts P n y a b =
     (sorted (map run_key P) \<and>
      (\<forall>r \<in> set P. \<forall>r' \<in> set P. pr_y r = pr_y r' \<and> pr_m r = pr_m r' \<longrightarrow>
          pr_xmin r \<le> pr_xmax r \<and> same_or_apart r r') \<and>
      (\<forall>k < n. \<exists>r \<in> set P. pr_m r = int k \<and> pr_y r = y \<and> pr_xmin r \<le> a \<and> b \<le> pr_xmax r))"

text \<open>The span that \<open>addSpan\<close> stores for a run.\<close>

definition span_of_run :: "PrimaryRun \<Rightarrow> Span" where
  "span_of_run r = Span (pr_y r) (min (pr_xmin r) (pr_xmax r)) (max (pr_xmin r) (pr_xmax r))"

text \<open>The diamond of radius \<open>r\<close>, as the constructor builds it when no sum wraps around.\<close>

definition diamond_element :: "int \<Rightarrow> StructuringElement" where
  "diamond_element r =
     \<lparr> widths = map (\<lambda>dy. Span dy (- (r - \<bar>dy\<bar>)) (r - \<bar>dy\<bar>)) [- r..r],
       yRange = 2 * r + 1 \<rparr>"

section \<open>Example footprints\<close>



text \<open>A blank mask of three columns and one row at the origin, and a span beside it.\<close>

definition blank_mask :: "16 word Image" where
  "blank_mask = \<lparr> img_X0 = 0, img_Y0 = 0, img_width = 3, img_height = 1, img_pix = (\<lambda>c. 0) \<rparr>"

definition far_right_footprint :: Footprint where
  "far_right_footprint = addSpan Footprint_default 0 5 7"

text \<open>A one-pixel image of 16-bit pixels and the footprint of its pixel.\<close>

definition unit_image :: "16 word Image" where
  "unit_image = \<lparr> img_X0 = 0, img_Y0 = 0, img_width = 1, img_height = 1, img_pix = (\<lambda>c. 0) \<rparr>"

definition unit_footprint :: Footprint where
  "unit_footprint = (addSpan Footprint_default 0 0 0) \<lparr> region := Box 0 0 0 0 \<rparr>"

text \<open>A span of four pixels, and a mask of three columns whose middle pixel has bit 1 set.\<close>

definition strip_footprint :: Footprint where
  "strip_footprint = \<lparr> spans = [Span 0 0 3], area = 4, bbox = Box 0 0 3 0,
       peaks = emptyPeaks minimalSchema, region = EmptyBox, normalized = True \<rparr>"

definition striped_mask :: "16 word Image" where
  "striped_mask = \<lparr> img_X0 = 0, img_Y0 = 0, img_width = 3, img_height = 1,
                    img_pix = (\<lambda>c. if c = (1, 0) then 1 else 0) \<rparr>"

text \<open>Two footprints that overlap on row 0, and their union.\<close>

definition left_footprint :: Footprint where
  "left_footprint = addSpan (addSpan Footprint_default 1 5 6) 0 0 2"

definition right_footprint :: Footprint where
  "right_footprint = \<lparr> spans = [Span 0 3 4, Span 0 9 9], area = 3, bbox = Box 3 0 9 0,
       peaks = \<lparr> schema = 0, records = [(3, 0)] \<rparr>, region = EmptyBox, normalized = True \<rparr>"

definition merged_footprint :: Footprint where
  "merged_footprint = \<lparr> spans = [Span 0 0 4, Span 0 9 9, Span 1 5 6], area = 8, bbox = Box 0 0 9 1,
       peaks = \<lparr> schema = 0, records = [(3, 0)] \<rparr>, region = EmptyBox, normalized = True \<rparr>"

text \<open>A span that starts at \<open>INT_MIN\<close>, and a span of the same row far to its right.\<close>

definition leftmost_footprint :: Footprint where
  "leftmost_footprint = addSpan Footprint_default 0 (- 2147483648) (- 2147483645)"

definition inner_footprint :: Footprint where
  "inner_footprint = addSpan Footprint_default 0 10 12"

text \<open>Two spans of one row, the second ending one column before \<open>INT_MAX\<close>.\<close>

definition rightmost_footprint :: Footprint where
  "rightmost_footprint =
     \<lparr> spans = [Span 0 0 3, Span 0 2147483645 2147483646], area = 6,
       bbox = Box 0 0 2147483646 0, peaks = emptyPeaks minimalSchema, region = EmptyBox,
       normalized = True \<rparr>"

text \<open>The dilation of the strip of four pixels by the diamond of radius 1.\<close>

definition grown_strip :: Footprint where
  "grown_strip =
     \<lparr> spans = [Span (- 1) 0 3, Span 0 (- 1) 4, Span 1 0 3], area = 14,
       bbox = Box (- 1) (- 1) 4 1, peaks = emptyPeaks minimalSchema, region = EmptyBox,
       normalized = True \<rparr>"


section \<open>The int sums\<close>

lemma int_succ_eq: "x < INT_MAX \<Longrightarrow> int_succ x = x + 1"
  by (simp add: int_succ_def)

lemma int_pred_eq: "INT_MIN < x \<Longrightarrow> int_pred x = x - 1"
  by (simp add: int_pred_def)

lemma int_succ_le: "int_succ x \<le> x + 1"
  by (simp add: int_succ_def INT_MAX_def INT_MIN_def)

lemma int_pred_ge: "x - 1 \<le> int_pred x"
  by (simp add: int_pred_def INT_MAX_def INT_MIN_def)

lemma int_wrap_id: "INT_MIN \<le> v \<Longrightarrow> v \<le> INT_MAX \<Longrightarrow> int_wrap v = v"
  by (simp add: int_wrap_def INT_MIN_def INT_MAX_def)

text \<open>On the values of an \<open>int\<close>, \<open>int_succ\<close> and \<open>int_pred\<close> are the wrapped sums.\<close>

lemma int_succ_wrap: "INT_MIN \<le> x \<Longrightarrow> x \<le> INT_MAX \<Longrightarrow> int_succ x = int_wrap (x + 1)"
  by (simp add: int_succ_def int_wrap_def INT_MIN_def INT_MAX_def)

lemma int_pred_wrap: "INT_MIN \<le> x \<Longrightarrow> x \<le> INT_MAX \<Longrightarrow> int_pred x = int_wrap (x - 1)"
  by (simp add: int_pred_def int_wrap_def INT_MIN_def INT_MAX_def)

lemma int_wrap_add: "small a \<Longrightarrow> small b \<Longrightarrow> int_wrap (a + b) = a + b"
  by (rule int_wrap_id) (simp_all add: small_def INT_MIN_def INT_MAX_def)

lemma int_wrap_diff: "small a \<Longrightarrow> small b \<Longrightarrow> int_wrap (a - b) = a - b"
  by (rule int_wrap_id) (simp_all add: small_def INT_MIN_def INT_MAX_def)

lemma int_wrap_small: "small v \<Longrightarrow> int_wrap v = v"
  by (rule int_wrap_id) (simp_all add: small_def INT_MIN_def INT_MAX_def)

lemma small_succ: "small v \<Longrightarrow> int_succ v = v + 1"
  by (rule int_succ_eq) (simp add: small_def INT_MAX_def)

lemma small_max: "small a \<Longrightarrow> small b \<Longrightarrow> small (max a b)"
  by (simp add: max_def)

section \<open>Normalization: proofs\<close>

lemma pixels_Cons: "pixels (s # ss) = {(x, y). span_contains s x y} \<union> pixels ss"
  by (auto simp: pixels_def)

lemma pixels_Nil: "pixels [] = {}"
  by (simp add: pixels_def)

lemma sweep_Nil: "normalize_sweep lspan ar mn mx [] = ([lspan], ar, mn, mx, getY lspan)"
  by simp

lemma sweep_extend:
  "getY rspan = getY lspan \<Longrightarrow> getX0 rspan \<le> int_succ (getX1 lspan) \<Longrightarrow> getX1 lspan < getX1 rspan \<Longrightarrow>
   normalize_sweep lspan ar mn mx (rspan # rest) =
   normalize_sweep (Span (getY lspan) (getX0 lspan) (getX1 rspan))
     (ar + (getX1 rspan - getX1 lspan)) mn (max mx (getX1 rspan)) rest"
  by (simp add: max_def)

lemma sweep_absorb:
  "getY rspan = getY lspan \<Longrightarrow> getX0 rspan \<le> int_succ (getX1 lspan) \<Longrightarrow> \<not> getX1 lspan < getX1 rspan \<Longrightarrow>
   normalize_sweep lspan ar mn mx (rspan # rest) = normalize_sweep lspan ar mn mx rest"
  by simp

lemma sweep_next:
  "\<not> (getY rspan = getY lspan \<and> getX0 rspan \<le> int_succ (getX1 lspan)) \<Longrightarrow>
   normalize_sweep lspan ar mn mx (rspan # rest) =
   (case normalize_sweep rspan (ar + getWidth rspan) (min mn (getX0 rspan)) (max mx (getX1 rspan)) rest
    of (ss, r) \<Rightarrow> (lspan # ss, r))"
  by (auto simp: Let_def min_def max_def split: prod.splits)

declare normalize_sweep.simps(2) [simp del]

lemma sweep_pixels:
  "sorted (map yx_key (lspan # rest)) \<Longrightarrow>
   pixels (fst (normalize_sweep lspan ar mn mx rest)) = pixels (lspan # rest)"
proof (induction rest arbitrary: lspan ar mn mx)
  case Nil
  then show ?case by simp
next
  case (Cons rspan rest)
  have le: "yx_key lspan \<le> yx_key rspan" using Cons.prems by simp
  have srt: "sorted (map yx_key (rspan # rest))" using Cons.prems by simp
  show ?case
  proof (cases "getY rspan = getY lspan \<and> getX0 rspan \<le> int_succ (getX1 lspan)")
    case merge: True
    show ?thesis
    proof (cases "getX1 lspan < getX1 rspan")
      case True
      let ?l = "Span (getY lspan) (getX0 lspan) (getX1 rspan)"
      have "yx_key ?l = yx_key lspan" by (simp add: yx_key_def)
      then have "sorted (map yx_key (?l # rest))" using Cons.prems by auto
      from Cons.IH[OF this] have
        "pixels (fst (normalize_sweep ?l (ar + (getX1 rspan - getX1 lspan)) mn
             (max mx (getX1 rspan)) rest)) = pixels (?l # rest)" .
      moreover have "pixels (?l # rest) = pixels (lspan # rspan # rest)"
        using merge True le int_succ_le[of "getX1 lspan"]
        by (auto simp: pixels_Cons span_contains_def yx_key_def less_eq_prod_def)
      ultimately show ?thesis using merge True by (simp add: sweep_extend)
    next
      case False
      have "sorted (map yx_key (lspan # rest))" using Cons.prems by auto
      from Cons.IH[OF this] have
        "pixels (fst (normalize_sweep lspan ar mn mx rest)) = pixels (lspan # rest)" .
      moreover have "pixels (lspan # rest) = pixels (lspan # rspan # rest)"
        using merge False le int_succ_le[of "getX1 lspan"]
        by (auto simp: pixels_Cons span_contains_def yx_key_def less_eq_prod_def)
      ultimately show ?thesis using merge False by (simp add: sweep_absorb)
    qed
  next
    case False
    obtain ss r where eq: "normalize_sweep rspan (ar + getWidth rspan) (min mn (getX0 rspan))
        (max mx (getX1 rspan)) rest = (ss, r)" by (metis surj_pair)
    from Cons.IH[OF srt, of "ar + getWidth rspan" "min mn (getX0 rspan)" "max mx (getX1 rspan)"] eq
    have "pixels ss = pixels (rspan # rest)" by simp
    then show ?thesis using False eq by (simp add: sweep_next pixels_Cons)
  qed
qed

lemma sweep_area:
  "fst (snd (normalize_sweep lspan ar mn mx rest)) =
   ar - getWidth lspan + sum_list (map getWidth (fst (normalize_sweep lspan ar mn mx rest)))"
proof (induction rest arbitrary: lspan ar mn mx)
  case Nil
  then show ?case by simp
next
  case (Cons rspan rest)
  show ?case
  proof (cases "getY rspan = getY lspan \<and> getX0 rspan \<le> int_succ (getX1 lspan)")
    case merge: True
    show ?thesis
    proof (cases "getX1 lspan < getX1 rspan")
      case True
      then show ?thesis using merge
        by (simp add: sweep_extend Cons.IH getWidth_def)
    next
      case False
      then show ?thesis using merge by (simp add: sweep_absorb Cons.IH)
    qed
  next
    case False
    obtain ss r where eq: "normalize_sweep rspan (ar + getWidth rspan) (min mn (getX0 rspan))
        (max mx (getX1 rspan)) rest = (ss, r)" by (metis surj_pair)
    from Cons.IH[of rspan "ar + getWidth rspan" "min mn (getX0 rspan)" "max mx (getX1 rspan)"] eq
    have "fst r = ar + sum_list (map getWidth ss)" by simp
    then show ?thesis using False eq by (simp add: sweep_next)
  qed
qed

text \<open>head of the result\<close>
lemma sweep_hd:
  "normalize_sweep lspan ar mn mx rest = (ss, r) \<Longrightarrow>
   ss \<noteq> [] \<and> getY (hd ss) = getY lspan \<and> getX0 (hd ss) = getX0 lspan \<and> getX1 lspan \<le> getX1 (hd ss)"
proof (induction rest arbitrary: lspan ar mn mx ss r)
  case Nil
  then show ?case by auto
next
  case (Cons rspan rest)
  show ?case
  proof (cases "getY rspan = getY lspan \<and> getX0 rspan \<le> int_succ (getX1 lspan)")
    case merge: True
    show ?thesis
    proof (cases "getX1 lspan < getX1 rspan")
      case True
      then show ?thesis using merge Cons.prems Cons.IH[of "Span (getY lspan) (getX0 lspan) (getX1 rspan)"]
        by (fastforce simp add: sweep_extend)
    next
      case False
      then show ?thesis using merge Cons.prems Cons.IH[of lspan] by (simp add: sweep_absorb)
    qed
  next
    case False
    then show ?thesis using Cons.prems by (auto simp add: sweep_next split: prod.splits)
  qed
qed

lemma sweep_separated:
  "sorted (map yx_key (lspan # rest)) \<Longrightarrow> \<forall>s \<in> set (lspan # rest). getX1 s < INT_MAX \<Longrightarrow>
   successively span_before (fst (normalize_sweep lspan ar mn mx rest))"
proof (induction rest arbitrary: lspan ar mn mx)
  case Nil
  then show ?case by simp
next
  case (Cons rspan rest)
  have le: "yx_key lspan \<le> yx_key rspan" using Cons.prems(1) by simp
  have srt: "sorted (map yx_key (rspan # rest))" using Cons.prems(1) by simp
  have bd: "getX1 lspan < INT_MAX" "getX1 rspan < INT_MAX" "\<forall>s \<in> set rest. getX1 s < INT_MAX"
    using Cons.prems(2) by simp_all
  show ?case
  proof (cases "getY rspan = getY lspan \<and> getX0 rspan \<le> int_succ (getX1 lspan)")
    case merge: True
    show ?thesis
    proof (cases "getX1 lspan < getX1 rspan")
      case True
      let ?l = "Span (getY lspan) (getX0 lspan) (getX1 rspan)"
      have "yx_key ?l = yx_key lspan" by (simp add: yx_key_def)
      then have "sorted (map yx_key (?l # rest))" using Cons.prems(1) by auto
      moreover have "\<forall>s \<in> set (?l # rest). getX1 s < INT_MAX" using bd by simp
      ultimately show ?thesis using Cons.IH[of ?l] merge True by (simp add: sweep_extend)
    next
      case False
      have "sorted (map yx_key (lspan # rest))" using Cons.prems(1) by auto
      moreover have "\<forall>s \<in> set (lspan # rest). getX1 s < INT_MAX" using bd by simp
      ultimately show ?thesis using Cons.IH[of lspan] merge False by (simp add: sweep_absorb)
    qed
  next
    case False
    obtain ss r where eq: "normalize_sweep rspan (ar + getWidth rspan) (min mn (getX0 rspan))
        (max mx (getX1 rspan)) rest = (ss, r)" by (metis surj_pair)
    have "\<forall>s \<in> set (rspan # rest). getX1 s < INT_MAX" using bd by simp
    from Cons.IH[OF srt this, of "ar + getWidth rspan" "min mn (getX0 rspan)" "max mx (getX1 rspan)"] eq
    have s: "successively span_before ss" by simp
    from sweep_hd[OF eq] have h: "ss \<noteq> []" "getY (hd ss) = getY rspan" "getX0 (hd ss) = getX0 rspan"
      by auto
    have "span_before lspan (hd ss)" using False le h int_succ_eq[OF bd(1)]
      by (auto simp: span_before_def yx_key_def less_eq_prod_def)
    then show ?thesis using False eq s h by (simp add: sweep_next successively_Cons)
  qed
qed


lemma sweep_columns:
  "columns_inside (lspan # rest) \<Longrightarrow>
   columns_inside (fst (normalize_sweep lspan ar mn mx rest))"
proof (induction rest arbitrary: lspan ar mn mx)
  case Nil
  then show ?case by simp
next
  case (Cons rspan rest)
  show ?case
  proof (cases "getY rspan = getY lspan \<and> getX0 rspan \<le> int_succ (getX1 lspan)")
    case merge: True
    show ?thesis
    proof (cases "getX1 lspan < getX1 rspan")
      case True
      have "columns_inside (Span (getY lspan) (getX0 lspan) (getX1 rspan) # rest)"
        using Cons.prems by (simp add: columns_inside_def)
      from Cons.IH[OF this] show ?thesis using merge True by (simp add: sweep_extend)
    next
      case False
      have "columns_inside (lspan # rest)" using Cons.prems by (simp add: columns_inside_def)
      from Cons.IH[OF this] show ?thesis using merge False by (simp add: sweep_absorb)
    qed
  next
    case False
    have "columns_inside (rspan # rest)" using Cons.prems by (simp add: columns_inside_def)
    from Cons.IH[OF this, of "ar + getWidth rspan" "min mn (getX0 rspan)" "max mx (getX1 rspan)"]
    show ?thesis using Cons.prems unfolding sweep_next[OF False]
      by (simp add: columns_inside_def split: prod.splits)
  qed
qed

lemma sweep_valid:
  "\<forall>s \<in> set (lspan # rest). getX0 s \<le> getX1 s \<Longrightarrow>
   \<forall>s \<in> set (fst (normalize_sweep lspan ar mn mx rest)). getX0 s \<le> getX1 s"
proof (induction rest arbitrary: lspan ar mn mx)
  case Nil
  then show ?case by simp
next
  case (Cons rspan rest)
  show ?case
  proof (cases "getY rspan = getY lspan \<and> getX0 rspan \<le> int_succ (getX1 lspan)")
    case merge: True
    show ?thesis
    proof (cases "getX1 lspan < getX1 rspan")
      case True
      let ?l = "Span (getY lspan) (getX0 lspan) (getX1 rspan)"
      have "\<forall>s \<in> set (?l # rest). getX0 s \<le> getX1 s" using Cons.prems True by auto
      from Cons.IH[OF this] show ?thesis using merge True by (simp add: sweep_extend)
    next
      case False
      have "\<forall>s \<in> set (lspan # rest). getX0 s \<le> getX1 s" using Cons.prems by auto
      from Cons.IH[OF this] show ?thesis using merge False by (simp add: sweep_absorb)
    qed
  next
    case False
    obtain ss r where eq: "normalize_sweep rspan (ar + getWidth rspan) (min mn (getX0 rspan))
        (max mx (getX1 rspan)) rest = (ss, r)" by (metis surj_pair)
    have "\<forall>s \<in> set (rspan # rest). getX0 s \<le> getX1 s" using Cons.prems by auto
    from Cons.IH[OF this, of "ar + getWidth rspan" "min mn (getX0 rspan)" "max mx (getX1 rspan)"] eq
    have "\<forall>s \<in> set ss. getX0 s \<le> getX1 s" by simp
    then show ?thesis using False eq Cons.prems by (simp add: sweep_next)
  qed
qed

lemma Min_insert_list:
  "ss \<noteq> [] \<Longrightarrow> Min (insert (a::int) (g ` set ss)) = min a (Min (g ` set ss))"
  by (rule Min_insert) auto

lemma Max_insert_list:
  "ss \<noteq> [] \<Longrightarrow> Max (insert (a::int) (g ` set ss)) = max a (Max (g ` set ss))"
  by (rule Max_insert) auto

lemma Min_hd_le: "ss \<noteq> [] \<Longrightarrow> Min ((g :: 'a \<Rightarrow> int) ` set ss) \<le> g (hd ss)"
  by (rule Min_le) auto

lemma Max_hd_ge: "ss \<noteq> [] \<Longrightarrow> (g :: 'a \<Rightarrow> int) (hd ss) \<le> Max (g ` set ss)"
  by (rule Max_ge) auto

lemma sweep_bounds:
  "normalize_sweep lspan ar mn mx rest = (ss, ar', mn', mx', yl) \<Longrightarrow>
   mn \<le> getX0 lspan \<Longrightarrow> getX1 lspan \<le> mx \<Longrightarrow>
   mn' = min mn (Min (getX0 ` set ss)) \<and> mx' = max mx (Max (getX1 ` set ss)) \<and>
   yl = getY (last ss)"
proof (induction rest arbitrary: lspan ar mn mx ss)
  case Nil
  then show ?case by (auto simp: min_def max_def)
next
  case (Cons rspan rest)
  show ?case
  proof (cases "getY rspan = getY lspan \<and> getX0 rspan \<le> int_succ (getX1 lspan)")
    case merge: True
    show ?thesis
    proof (cases "getX1 lspan < getX1 rspan")
      case True
      let ?l = "Span (getY lspan) (getX0 lspan) (getX1 rspan)"
      have eq: "normalize_sweep ?l (ar + (getX1 rspan - getX1 lspan)) mn (max mx (getX1 rspan)) rest
                = (ss, ar', mn', mx', yl)"
        using Cons.prems(1) merge True by (simp add: sweep_extend)
      from sweep_hd[OF eq] have h: "ss \<noteq> []" "getX1 rspan \<le> getX1 (hd ss)" by auto
      have "getX1 rspan \<le> Max (getX1 ` set ss)"
        using h(2) Max_hd_ge[OF h(1), of getX1] by linarith
      moreover from Cons.IH[OF eq] Cons.prems(2) have
        "mn' = min mn (Min (getX0 ` set ss))"
        "mx' = max (max mx (getX1 rspan)) (Max (getX1 ` set ss))" "yl = getY (last ss)"
        by auto
      ultimately show ?thesis by (simp add: max_def)
    next
      case False
      have eq: "normalize_sweep lspan ar mn mx rest = (ss, ar', mn', mx', yl)"
        using Cons.prems(1) merge False by (simp add: sweep_absorb)
      from Cons.IH[OF eq] Cons.prems show ?thesis by simp
    qed
  next
    case False
    obtain ss2 where eq: "normalize_sweep rspan (ar + getWidth rspan) (min mn (getX0 rspan))
        (max mx (getX1 rspan)) rest = (ss2, ar', mn', mx', yl)" and ss: "ss = lspan # ss2"
      using Cons.prems(1) False by (auto simp add: sweep_next split: prod.splits)
    from sweep_hd[OF eq] have h: "ss2 \<noteq> []" "getX0 (hd ss2) = getX0 rspan" "getX1 rspan \<le> getX1 (hd ss2)"
      by auto
    from Cons.IH[OF eq] have
      ih: "mn' = min (min mn (getX0 rspan)) (Min (getX0 ` set ss2))"
          "mx' = max (max mx (getX1 rspan)) (Max (getX1 ` set ss2))"
          "yl = getY (last ss2)" by auto
    have a: "Min (getX0 ` set ss2) \<le> getX0 rspan"
      using h(2) Min_hd_le[OF h(1), of getX0] by linarith
    have b: "getX1 rspan \<le> Max (getX1 ` set ss2)"
      using h(3) Max_hd_ge[OF h(1), of getX1] by linarith
    have s0: "getX0 ` set ss = insert (getX0 lspan) (getX0 ` set ss2)"
      and s1: "getX1 ` set ss = insert (getX1 lspan) (getX1 ` set ss2)" using ss by auto
    have 1: "mn' = min mn (Min (getX0 ` set ss))"
      unfolding s0 Min_insert_list[OF h(1)] using ih(1) a Cons.prems(2) by (simp add: min_def)
    have 2: "mx' = max mx (Max (getX1 ` set ss))"
      unfolding s1 Max_insert_list[OF h(1)] using ih(2) b Cons.prems(3) by (simp add: max_def)
    show ?thesis using 1 2 ih(3) ss h(1) by simp
  qed
qed


lemma span_key_le_yx: "span_key a \<le> span_key b \<Longrightarrow> yx_key a \<le> yx_key b"
  by (auto simp: span_key_def yx_key_def less_eq_prod_def)

lemma sorted_key_yx: "sorted (map span_key ss) \<Longrightarrow> sorted (map yx_key ss)"
  unfolding sorted_map by (erule sorted_wrt_mono_rel[rotated]) (simp add: span_key_le_yx)

lemma sorted_key_y: "sorted (map span_key ss) \<Longrightarrow> sorted (map getY ss)"
  unfolding sorted_map
  by (erule sorted_wrt_mono_rel[rotated]) (auto simp: span_key_def less_eq_prod_def)

lemma separated_sorted:
  assumes "successively span_before ss" "\<forall>s \<in> set ss. getX0 s \<le> getX1 s"
  shows "sorted (map span_key ss)"
proof -
  have tr: "\<And>a b c. a \<in> set ss \<Longrightarrow> b \<in> set ss \<Longrightarrow> c \<in> set ss \<Longrightarrow>
      span_before a b \<Longrightarrow> span_before b c \<Longrightarrow> span_before a c"
    using assms(2) by (fastforce simp: span_before_def)
  have "sorted_wrt span_before ss"
    using successively_iff_sorted_wrt_strong[of ss span_before] tr assms(1) by blast
  then have "sorted_wrt (\<lambda>a b. span_key a \<le> span_key b) ss"
  proof (rule sorted_wrt_mono_rel[rotated])
    fix a b assume "a \<in> set ss" "b \<in> set ss" "span_before a b"
    then show "span_key a \<le> span_key b" using assms(2)
      by (fastforce simp: span_before_def span_key_def less_eq_prod_def)
  qed
  then show ?thesis by (simp add: sorted_map)
qed

lemma separated_row_separated: "successively span_before ss \<Longrightarrow> row_separated ss"
  unfolding row_separated_def
  by (rule successively_mono[of span_before]) (auto simp: span_before_def)

lemma sorted_Min_hd: "sorted (map (g :: 'a \<Rightarrow> int) ss) \<Longrightarrow> ss \<noteq> [] \<Longrightarrow> Min (g ` set ss) = g (hd ss)"
  by (cases ss) (auto intro!: Min_eqI)

lemma sorted_last_ge: "sorted (map (g :: 'a \<Rightarrow> int) ss) \<Longrightarrow> s \<in> set ss \<Longrightarrow> g s \<le> g (last ss)"
  by (induction ss) (auto split: if_splits)

lemma sorted_Max_last: "sorted (map (g :: 'a \<Rightarrow> int) ss) \<Longrightarrow> ss \<noteq> [] \<Longrightarrow> Max (g ` set ss) = g (last ss)"
  by (rule Max_eqI) (auto simp: sorted_last_ge)

lemma sort_spans_sorted: "sorted (map span_key (sort_spans ss))"
  by (simp add: sort_spans_def)

lemma sort_spans_set: "set (sort_spans ss) = set ss"
  by (simp add: sort_spans_def)

lemma pixels_set_cong: "set ss = set ts \<Longrightarrow> pixels ss = pixels ts"
  by (simp add: pixels_def)

lemma normalize_nontrivial:
  assumes "\<not> normalized f" "spans f \<noteq> []"
  obtains lspan rest ss ar mn mx yl where
    "sort_spans (spans f) = lspan # rest"
    "normalize_sweep lspan (getWidth lspan) (getX0 lspan) (getX1 lspan) rest = (ss, ar, mn, mx, yl)"
    "normalize f = f \<lparr> spans := ss, area := ar,
                        bbox := Box2I_of_corners mn (getY lspan) mx yl, normalized := True \<rparr>"
proof -
  have "sort_spans (spans f) \<noteq> []" using assms(2) sort_spans_set[of "spans f"] by fastforce
  then obtain lspan rest where 1: "sort_spans (spans f) = lspan # rest" by (cases "sort_spans (spans f)") auto
  obtain ss ar mn mx yl where
    2: "normalize_sweep lspan (getWidth lspan) (getX0 lspan) (getX1 lspan) rest = (ss, ar, mn, mx, yl)"
    by (metis surj_pair)
  have "normalize f = f \<lparr> spans := ss, area := ar,
                        bbox := Box2I_of_corners mn (getY lspan) mx yl, normalized := True \<rparr>"
    using assms 1 2 by (simp add: normalize_def)
  with 1 2 show ?thesis using that by blast
qed

lemma normalize_pixels_eq: "pixels (spans (normalize f)) = pixels (spans f)"
proof (cases "normalized f \<or> spans f = []")
  case True
  then show ?thesis by (auto simp: normalize_def)
next
  case False
  then obtain lspan rest ss ar mn mx yl where
    1: "sort_spans (spans f) = lspan # rest" and
    2: "normalize_sweep lspan (getWidth lspan) (getX0 lspan) (getX1 lspan) rest = (ss, ar, mn, mx, yl)" and
    3: "normalize f = f \<lparr> spans := ss, area := ar,
                        bbox := Box2I_of_corners mn (getY lspan) mx yl, normalized := True \<rparr>"
    using normalize_nontrivial[of f] by blast
  have "sorted (map yx_key (lspan # rest))"
    using sort_spans_sorted[of "spans f"] 1 sorted_key_yx by metis
  from sweep_pixels[OF this, of "getWidth lspan" "getX0 lspan" "getX1 lspan"] 2
  have "pixels ss = pixels (lspan # rest)" by simp
  also have "\<dots> = pixels (spans f)"
    using pixels_set_cong[OF sort_spans_set[of "spans f"]] 1 by simp
  finally show ?thesis using 3 by simp
qed

text \<open>
  Claim C9. \<open>normalize\<close> never changes the set of pixels a footprint covers: a pixel is
  contained in some span after the call exactly when it is contained in some span before.
\<close>

theorem normalize_preserves_pixels:
  "(\<exists>s \<in> set (spans (normalize f)). span_contains s x y) = (\<exists>s \<in> set (spans f). span_contains s x y)"
proof -
  have "((x, y) \<in> pixels (spans (normalize f))) = ((x, y) \<in> pixels (spans f))"
    by (simp only: normalize_pixels_eq)
  then show ?thesis by (simp add: pixels_def)
qed

lemma normalize_is_normal:
  assumes v: "valid_spans (spans f)" and nn: "\<not> normalized f"
    and bd: "\<forall>s \<in> set (spans f). getX1 s < INT_MAX"
  shows "is_normal (normalize f) \<and> valid_spans (spans (normalize f))"
proof (cases "spans f = []")
  case True
  then show ?thesis using nn
    by (simp add: normalize_def is_normal_def row_separated_def tight_bbox_def valid_spans_def)
next
  case False
  then obtain lspan rest ss ar mn mx yl where
    1: "sort_spans (spans f) = lspan # rest" and
    2: "normalize_sweep lspan (getWidth lspan) (getX0 lspan) (getX1 lspan) rest = (ss, ar, mn, mx, yl)" and
    3: "normalize f = f \<lparr> spans := ss, area := ar,
                        bbox := Box2I_of_corners mn (getY lspan) mx yl, normalized := True \<rparr>"
    using normalize_nontrivial[of f] nn by blast
  have srt: "sorted (map yx_key (lspan # rest))"
    using sort_spans_sorted[of "spans f"] 1 sorted_key_yx by metis
  have val: "\<forall>s \<in> set (lspan # rest). getX0 s \<le> getX1 s"
    using v sort_spans_set[of "spans f"] 1 by (simp add: valid_spans_def)
  have bds: "\<forall>s \<in> set (lspan # rest). getX1 s < INT_MAX"
    using bd sort_spans_set[of "spans f"] 1 by simp
  have sep: "successively span_before ss"
    using sweep_separated[OF srt bds, of "getWidth lspan" "getX0 lspan" "getX1 lspan"] 2 by simp
  have vss: "\<forall>s \<in> set ss. getX0 s \<le> getX1 s"
    using sweep_valid[OF val, of "getWidth lspan" "getX0 lspan" "getX1 lspan"] 2 by simp
  have sk: "sorted (map span_key ss)" using separated_sorted[OF sep vss] .
  have ar: "ar = sum_list (map getWidth ss)"
    using sweep_area[of lspan "getWidth lspan" "getX0 lspan" "getX1 lspan" rest] 2 by simp
  from sweep_hd[OF 2] have h: "ss \<noteq> []" "getY (hd ss) = getY lspan" "getX0 (hd ss) = getX0 lspan"
    "getX1 lspan \<le> getX1 (hd ss)" by auto
  from sweep_bounds[OF 2] have b: "mn = min (getX0 lspan) (Min (getX0 ` set ss))"
    "mx = max (getX1 lspan) (Max (getX1 ` set ss))" "yl = getY (last ss)" by auto
  have mn: "mn = Min (getX0 ` set ss)" using b(1) h(3) Min_hd_le[OF h(1), of getX0] by simp
  have mx: "mx = Max (getX1 ` set ss)" using b(2) h(4) Max_hd_ge[OF h(1), of getX1] by simp
  have y0: "getY lspan = Min (getY ` set ss)" using sorted_Min_hd[OF sorted_key_y[OF sk] h(1)] h(2) by simp
  have y1: "yl = Max (getY ` set ss)" using sorted_Max_last[OF sorted_key_y[OF sk] h(1)] b(3) by simp
  have "hd ss \<in> set ss" using h(1) by simp
  then have "getX0 (hd ss) \<le> getX1 (hd ss)" using vss by blast
  then have le1: "mn \<le> mx" using mn mx Min_hd_le[OF h(1), of getX0] Max_hd_ge[OF h(1), of getX1] by linarith
  have le2: "getY lspan \<le> yl" using sorted_last_ge[OF sorted_key_y[OF sk], of "hd ss"] h b(3) by simp
  have bb: "Box2I_of_corners mn (getY lspan) mx yl = tight_bbox ss"
    using le1 le2 h(1) mn mx y0 y1 by (simp add: Box2I_of_corners_def tight_bbox_def)
  show ?thesis
    using 3 sk separated_row_separated[OF sep] ar bb vss by (simp add: is_normal_def valid_spans_def)
qed





section \<open>addSpanInSeries: proofs\<close>

text \<open>The scenario of the specification: the second call is rejected.\<close>

lemma addSpanInSeries_scenario:
  "addSpanInSeries Footprint_default 5 3 3 =
     Inr (Footprint_default \<lparr> spans := [Span 5 3 3], area := 1, bbox := Box 3 5 3 5 \<rparr>) \<and>
   addSpanInSeries (Footprint_default \<lparr> spans := [Span 5 3 3], area := 1, bbox := Box 3 5 3 5 \<rparr>) 5 0 1 =
     Inl InvalidParameterError"
  by (simp add: addSpanInSeries_def addSpan_def Footprint_default_def getWidth_def Let_def
      int_succ_def INT_MAX_def)

text \<open>When the call fails: the row is not later and the start column is not beyond the gap.\<close>

lemma addSpanInSeries_fails_iff:
  assumes "spans f \<noteq> []" "x0 \<le> x1"
  shows "addSpanInSeries f y x0 x1 = Inl InvalidParameterError \<longleftrightarrow>
         (y < getY (last (spans f)) \<and> x0 \<le> int_succ (getX1 (last (spans f)))) \<or>
         (y = getY (last (spans f)) \<and> x0 < int_succ (getX1 (last (spans f))))"
  using assms by (auto simp add: addSpanInSeries_def Let_def)

text \<open>
  Claim C5. A span that is neither a contiguous extension of the last span nor strictly
  after it must be rejected with InvalidArgument. The code accepts a span on an earlier
  row when its start column lies beyond the last span's end: after \<open>(y=5, x0=0, x1=1)\<close> the
  call with \<open>(y=3, x0=10, x1=12)\<close> appends the span and leaves the flag set.
\<close>

theorem addSpanInSeries_accepts_earlier_row:
  "addSpanInSeries Footprint_default 5 0 1 =
     Inr (Footprint_default \<lparr> spans := [Span 5 0 1], area := 2, bbox := Box 0 5 1 5 \<rparr>) \<and>
   addSpanInSeries (Footprint_default \<lparr> spans := [Span 5 0 1], area := 2, bbox := Box 0 5 1 5 \<rparr>) 3 10 12 =
     Inr (Footprint_default \<lparr> spans := [Span 5 0 1, Span 3 10 12], area := 5, bbox := Box 0 3 12 5 \<rparr>)"
  by (simp add: addSpanInSeries_def addSpan_def Footprint_default_def getWidth_def Let_def
      int_succ_def INT_MAX_def)

section \<open>Rasters: proofs\<close>

lemma skip_leading_fails_iff:
  "skip_leading minY ss = Inl UndefinedBehaviour \<longleftrightarrow> (\<forall>s \<in> set ss. getY s < minY)"
  by (induction ss) auto

lemma skip_leading_error: "skip_leading minY ss = Inl e \<Longrightarrow> e = UndefinedBehaviour"
  by (induction ss) (auto split: if_splits)

lemma intersectMask_fails_iff:
  "(\<exists>e. intersectMask f msk bitmask = Inl e) \<longleftrightarrow>
   (\<forall>s \<in> set (spans (normalize f)). getY s < getMinY (img_getBBox msk))"
  using skip_leading_fails_iff[of "getMinY (img_getBBox msk)" "spans (normalize f)"]
        skip_leading_error[of "getMinY (img_getBBox msk)" "spans (normalize f)"]
  by (auto simp: intersectMask_def Let_def split: sum.splits)

text \<open>
  Claim C10. Every access of \<open>intersectMask\<close> to the span list must stay in bounds. The
  leading scan reads the span before it compares the iterator with the end: on the empty
  footprint, and on a footprint all of whose spans lie on rows before the mask's first
  row, it reads past the end of the list.
\<close>

theorem intersectMask_reads_past_end:
  "intersectMask Footprint_default msk bitmask = Inl UndefinedBehaviour \<and>
   intersectMask (addSpan Footprint_default 0 0 2) (blank_mask \<lparr> img_Y0 := 5 \<rparr>) 1 = Inl UndefinedBehaviour"
  by (simp add: intersectMask_def Footprint_default_def normalize_def addSpan_def blank_mask_def
        img_getBBox_def sort_spans_def getWidth_def Let_def)

text \<open>
  Claim C7. \<open>setMaskFromFootprint\<close> must change exactly the mask pixels under the spans
  clipped to the raster. Each end column is clamped on its own, so a span that lies
  wholly beside the raster on a row of the raster marks the nearest edge pixel: the span
  \<open>(y=0, x0=5, x1=7)\<close> sets the bit at \<open>(2, 0)\<close> of a mask of three columns.
\<close>

theorem setMaskFromFootprint_marks_outside:
  "\<not> (\<exists>s \<in> set (spans far_right_footprint). span_contains s 2 0) \<and>
   pixel_at blank_mask 2 0 = 0 \<and>
   (case setMaskFromFootprint blank_mask far_right_footprint 1 of
      Inr m \<Rightarrow> pixel_at m 2 0 = 1 | Inl e \<Rightarrow> False)"
  by (simp add: setMaskFromFootprint_def far_right_footprint_def addSpan_def Footprint_default_def
      blank_mask_def setMask_span_def clamp_col_def pixel_at_def span_contains_def Let_def)

text \<open>
  Claim C8. Each overload of \<open>insertIntoImage\<close> must fail with OutOfRange when the id does
  not fit the pixel type. The overload without a protected mask makes no such test: with
  16-bit pixels the id 65537 is added modulo \<open>2 ^ 16\<close> and the call succeeds.
\<close>

theorem insertIntoImage_no_range_check:
  "\<not> unat (65537 :: 64 word) \<le> 2 ^ 16 - 1 \<and>
   (case insertIntoImage unit_footprint unit_image 65537 EmptyBox of
      Inr im \<Rightarrow> img_pix im (0, 0) = 1 | Inl e \<Rightarrow> False)"
  by (simp add: insertIntoImage_def doInsertIntoImage_def unit_footprint_def unit_image_def
      addSpan_def Footprint_default_def box_getWidth_def box_getHeight_def insert_span_def
      insert_pixel_def Let_def)

text \<open>The overload with a protected mask fails as claimed, the range test first.\<close>

lemma insertIntoImage_overwrite_OutOfRange:
  fixes idImage :: "'a::len word Image"
  assumes "unat ident > 2 ^ LENGTH('a) - 1"
  shows "insertIntoImage_overwrite f idImage ident overwriteId protect oldIds reg = Inl OutOfRangeError"
  using assms by (simp add: insertIntoImage_overwrite_def)

lemma insertIntoImage_overwrite_InvalidParameter:
  fixes idImage :: "'a::len word Image"
  assumes "unat ident \<le> 2 ^ LENGTH('a) - 1" "ident AND protect \<noteq> 0"
  shows "insertIntoImage_overwrite f idImage ident overwriteId protect oldIds reg = Inl InvalidParameterError"
  using assms by (simp add: insertIntoImage_overwrite_def doInsertIntoImage_def Let_def)

section \<open>Intersection with a mask: proofs\<close>

lemma slice_step_masked_gt:
  "\<not> unmasked_at msk bitmask mb a y \<Longrightarrow> x0 < a \<Longrightarrow>
   finish_slice y b (slice_span msk bitmask mb y x0 (a # xs)) =
   Span y x0 (a - 1) # finish_slice y b (slice_span msk bitmask mb y (a + 1) xs)"
  by (simp add: finish_slice_def unmasked_at_def split: prod.splits)

lemma slice_step_masked_eq:
  "\<not> unmasked_at msk bitmask mb a y \<Longrightarrow> \<not> x0 < a \<Longrightarrow>
   finish_slice y b (slice_span msk bitmask mb y x0 (a # xs)) =
   finish_slice y b (slice_span msk bitmask mb y (a + 1) xs)"
  by (simp add: finish_slice_def unmasked_at_def split: prod.splits)

lemma slice_step_unmasked:
  "unmasked_at msk bitmask mb a y \<Longrightarrow>
   finish_slice y b (slice_span msk bitmask mb y x0 (a # xs)) =
   finish_slice y b (slice_span msk bitmask mb y x0 xs)"
  by (simp add: finish_slice_def unmasked_at_def split: prod.splits)

lemma slice_correct:
  "x0 \<le> a \<Longrightarrow> a \<le> b + 1 \<Longrightarrow> R = finish_slice y b (slice_span msk bitmask mb y x0 [a..b]) \<Longrightarrow>
   (\<forall>r \<in> set R. getY r = y \<and> x0 \<le> getX0 r \<and> getX0 r \<le> getX1 r \<and> getX1 r \<le> b) \<and>
   sorted_wrt span_before R \<and>
   (\<forall>x. (\<exists>r \<in> set R. getX0 r \<le> x \<and> x \<le> getX1 r) \<longleftrightarrow>
        (x0 \<le> x \<and> x \<le> b \<and> (x < a \<or> unmasked_at msk bitmask mb x y)))"
proof (induction "nat (b + 1 - a)" arbitrary: a x0 R)
  case 0
  then have "a = b + 1" by simp
  then have "[a..b] = []" by simp
  then show ?case using 0 by (auto simp: finish_slice_def)
next
  case (Suc n)
  then have ab: "a \<le> b" by simp
  then have up: "[a..b] = a # [a + 1..b]" by (simp add: upto_rec1)
  have n: "n = nat (b + 1 - (a + 1))" using Suc.hyps(2) by simp
  show ?case
  proof (cases "unmasked_at msk bitmask mb a y")
    case True
    have R: "R = finish_slice y b (slice_span msk bitmask mb y x0 [a + 1..b])"
      unfolding Suc.prems(3) up by (rule slice_step_unmasked[OF True])
    have "x0 \<le> a + 1" using Suc.prems(1) by simp
    from Suc.hyps(1)[OF n this _ R] ab have
      ih: "(\<forall>r \<in> set R. getY r = y \<and> x0 \<le> getX0 r \<and> getX0 r \<le> getX1 r \<and> getX1 r \<le> b)"
        "sorted_wrt span_before R"
        "\<And>x. (\<exists>r \<in> set R. getX0 r \<le> x \<and> x \<le> getX1 r) \<longleftrightarrow>
        (x0 \<le> x \<and> x \<le> b \<and> (x < a + 1 \<or> unmasked_at msk bitmask mb x y))" by auto
    have "(x < a + 1 \<or> unmasked_at msk bitmask mb x y) = (x < a \<or> unmasked_at msk bitmask mb x y)" for x
      using True by (cases "x = a") auto
    then show ?thesis using ih by simp
  next
    case False
    let ?R' = "finish_slice y b (slice_span msk bitmask mb y (a + 1) [a + 1..b])"
    from Suc.hyps(1)[OF n _ _ refl, of "a + 1"] ab have
      ih: "(\<forall>r \<in> set ?R'. getY r = y \<and> a + 1 \<le> getX0 r \<and> getX0 r \<le> getX1 r \<and> getX1 r \<le> b)"
        "sorted_wrt span_before ?R'"
        "\<And>x. (\<exists>r \<in> set ?R'. getX0 r \<le> x \<and> x \<le> getX1 r) \<longleftrightarrow>
        (a + 1 \<le> x \<and> x \<le> b \<and> (x < a + 1 \<or> unmasked_at msk bitmask mb x y))" by auto
    have cov: "(\<exists>r \<in> set ?R'. getX0 r \<le> x \<and> x \<le> getX1 r) \<longleftrightarrow>
        (a \<le> x \<and> x \<le> b \<and> unmasked_at msk bitmask mb x y)" for x
      unfolding ih(3) using False by (cases "x = a") auto
    show ?thesis
    proof (cases "x0 < a")
      case True
      have R: "R = Span y x0 (a - 1) # ?R'"
        unfolding Suc.prems(3) up by (rule slice_step_masked_gt[OF False True])
      have 1: "\<forall>r \<in> set R. getY r = y \<and> x0 \<le> getX0 r \<and> getX0 r \<le> getX1 r \<and> getX1 r \<le> b"
        using R ih(1) True ab by auto
      have 2: "sorted_wrt span_before R"
        using R ih(1,2) by (auto simp: span_before_def)
      have 3: "\<forall>x. (\<exists>r \<in> set R. getX0 r \<le> x \<and> x \<le> getX1 r) \<longleftrightarrow>
        (x0 \<le> x \<and> x \<le> b \<and> (x < a \<or> unmasked_at msk bitmask mb x y))"
      proof
        fix x
        have "(\<exists>r \<in> set R. getX0 r \<le> x \<and> x \<le> getX1 r) \<longleftrightarrow>
              (x0 \<le> x \<and> x \<le> a - 1) \<or> (\<exists>r \<in> set ?R'. getX0 r \<le> x \<and> x \<le> getX1 r)"
          unfolding R by simp
        also have "\<dots> \<longleftrightarrow> (x0 \<le> x \<and> x \<le> a - 1) \<or> (a \<le> x \<and> x \<le> b \<and> unmasked_at msk bitmask mb x y)"
          unfolding cov ..
        also have "\<dots> \<longleftrightarrow> (x0 \<le> x \<and> x \<le> b \<and> (x < a \<or> unmasked_at msk bitmask mb x y))"
          using True ab by auto
        finally show "(\<exists>r \<in> set R. getX0 r \<le> x \<and> x \<le> getX1 r) \<longleftrightarrow>
          (x0 \<le> x \<and> x \<le> b \<and> (x < a \<or> unmasked_at msk bitmask mb x y))" .
      qed
      show ?thesis using 1 2 3 by blast
    next
      case nlt: False
      then have xa: "x0 = a" using Suc.prems(1) by simp
      have R: "R = ?R'"
        unfolding Suc.prems(3) up by (rule slice_step_masked_eq[OF False nlt])
      have 1: "\<forall>r \<in> set R. getY r = y \<and> x0 \<le> getX0 r \<and> getX0 r \<le> getX1 r \<and> getX1 r \<le> b"
        using R ih(1) xa by auto
      have 3: "\<forall>x. (\<exists>r \<in> set R. getX0 r \<le> x \<and> x \<le> getX1 r) \<longleftrightarrow>
        (x0 \<le> x \<and> x \<le> b \<and> (x < a \<or> unmasked_at msk bitmask mb x y))"
        unfolding R cov xa by auto
      show ?thesis using 1 ih(2) 3 R by blast
    qed
  qed
qed


lemma mask_one_span_eq:
  "mask_one_span msk bitmask mb s =
   finish_slice (getY s) (min (getX1 s) (getMaxX mb))
     (slice_span msk bitmask mb (getY s) (max (getX0 s) (getMinX mb))
        [max (getX0 s) (getMinX mb)..min (getX1 s) (getMaxX mb)])"
  by (simp add: mask_one_span_def finish_slice_def Let_def min_def max_def split: prod.splits)

lemma mask_one_span_correct:
  assumes "getX0 s \<le> getX1 s" "\<not> (getX1 s < getMinX mb \<or> getX0 s > getMaxX mb)"
    "getMinX mb \<le> getMaxX mb + 1"
  shows "(\<forall>r \<in> set (mask_one_span msk bitmask mb s).
            within r s \<and> getX0 r \<le> getX1 r \<and> getMinX mb \<le> getX0 r \<and> getX1 r \<le> getMaxX mb) \<and>
         sorted_wrt span_before (mask_one_span msk bitmask mb s) \<and>
         (\<forall>x. (\<exists>r \<in> set (mask_one_span msk bitmask mb s). getX0 r \<le> x \<and> x \<le> getX1 r) \<longleftrightarrow>
              (getX0 s \<le> x \<and> x \<le> getX1 s \<and> getMinX mb \<le> x \<and> x \<le> getMaxX mb \<and>
               unmasked_at msk bitmask mb x (getY s)))"
proof -
  let ?a = "max (getX0 s) (getMinX mb)" and ?b = "min (getX1 s) (getMaxX mb)"
  let ?R = "mask_one_span msk bitmask mb s"
  have ab: "?a \<le> ?b + 1" using assms by (auto simp: min_def max_def)
  from slice_correct[OF order_refl ab mask_one_span_eq]
  have c: "\<forall>r \<in> set ?R. getY r = getY s \<and> ?a \<le> getX0 r \<and> getX0 r \<le> getX1 r \<and> getX1 r \<le> ?b"
    "sorted_wrt span_before ?R"
    "\<And>x. (\<exists>r \<in> set ?R. getX0 r \<le> x \<and> x \<le> getX1 r) \<longleftrightarrow>
        (?a \<le> x \<and> x \<le> ?b \<and> (x < ?a \<or> unmasked_at msk bitmask mb x (getY s)))"
    by blast+
  have 1: "\<forall>r \<in> set ?R. within r s \<and> getX0 r \<le> getX1 r \<and> getMinX mb \<le> getX0 r \<and> getX1 r \<le> getMaxX mb"
    using c(1) by (auto simp: within_def)
  have 3: "\<forall>x. (\<exists>r \<in> set ?R. getX0 r \<le> x \<and> x \<le> getX1 r) \<longleftrightarrow>
              (getX0 s \<le> x \<and> x \<le> getX1 s \<and> getMinX mb \<le> x \<and> x \<le> getMaxX mb \<and>
               unmasked_at msk bitmask mb x (getY s))"
    unfolding c(3) by auto
  show ?thesis using 1 c(2) 3 by blast
qed

lemma before_within: "span_before s t \<Longrightarrow> within r s \<Longrightarrow> within r' t \<Longrightarrow> span_before r r'"
  by (auto simp: span_before_def within_def)

lemma mask_spans_within:
  assumes "valid_spans ss" "getMinX mb \<le> getMaxX mb + 1"
  shows "\<forall>r \<in> set (mask_spans msk bitmask mb ss).
           (\<exists>s \<in> set ss. within r s) \<and> getX0 r \<le> getX1 r \<and>
           getMinX mb \<le> getX0 r \<and> getX1 r \<le> getMaxX mb \<and> getY r \<le> getMaxY mb"
  using assms(1)
proof (induction ss)
  case Nil
  then show ?case by simp
next
  case (Cons s ss)
  have v: "getX0 s \<le> getX1 s" "valid_spans ss" using Cons.prems by (auto simp: valid_spans_def)
  show ?case
  proof (cases "getY s > getMaxY mb")
    case True
    then show ?thesis by simp
  next
    case False
    show ?thesis
    proof (cases "getX1 s < getMinX mb \<or> getX0 s > getMaxX mb")
      case True
      then show ?thesis using False Cons.IH[OF v(2)] by auto
    next
      case ov: False
      from mask_one_span_correct[OF v(1) ov assms(2), of msk bitmask]
      have "\<forall>r \<in> set (mask_one_span msk bitmask mb s).
            within r s \<and> getX0 r \<le> getX1 r \<and> getMinX mb \<le> getX0 r \<and> getX1 r \<le> getMaxX mb"
        by blast
      moreover have "\<forall>r \<in> set (mask_one_span msk bitmask mb s). within r s \<longrightarrow> getY r \<le> getMaxY mb"
        using False by (auto simp: within_def)
      ultimately show ?thesis using False ov Cons.IH[OF v(2)] by auto
    qed
  qed
qed

lemma mask_spans_sorted:
  assumes "valid_spans ss" "sorted_wrt span_before ss" "getMinX mb \<le> getMaxX mb + 1"
  shows "sorted_wrt span_before (mask_spans msk bitmask mb ss)"
  using assms(1,2)
proof (induction ss)
  case Nil
  then show ?case by simp
next
  case (Cons s ss)
  have v: "getX0 s \<le> getX1 s" "valid_spans ss" using Cons.prems by (auto simp: valid_spans_def)
  have sw: "sorted_wrt span_before ss" "\<forall>t \<in> set ss. span_before s t" using Cons.prems by auto
  show ?case
  proof (cases "getY s > getMaxY mb")
    case True
    then show ?thesis by simp
  next
    case False
    show ?thesis
    proof (cases "getX1 s < getMinX mb \<or> getX0 s > getMaxX mb")
      case True
      then show ?thesis using False Cons.IH[OF v(2) sw(1)] by auto
    next
      case ov: False
      from mask_one_span_correct[OF v(1) ov assms(3), of msk bitmask]
      have a: "\<forall>r \<in> set (mask_one_span msk bitmask mb s). within r s"
        "sorted_wrt span_before (mask_one_span msk bitmask mb s)"
        by blast+
      have b: "\<forall>r' \<in> set (mask_spans msk bitmask mb ss). \<exists>t \<in> set ss. within r' t"
        using mask_spans_within[OF v(2) assms(3), of msk bitmask] by blast
      have "\<forall>r \<in> set (mask_one_span msk bitmask mb s). \<forall>r' \<in> set (mask_spans msk bitmask mb ss).
              span_before r r'"
        using a(1) b sw(2) before_within by blast
      then show ?thesis using False ov Cons.IH[OF v(2) sw(1)] a(2)
        by (simp add: sorted_wrt_append)
    qed
  qed
qed

lemma before_y_le: "span_before s t \<Longrightarrow> getY s \<le> getY t"
  by (auto simp: span_before_def)

lemma mask_spans_pixels:
  assumes "valid_spans ss" "sorted_wrt span_before ss" "getMinX mb \<le> getMaxX mb + 1"
  shows "(x, y) \<in> pixels (mask_spans msk bitmask mb ss) \<longleftrightarrow>
         (x, y) \<in> pixels ss \<and> y \<le> getMaxY mb \<and> getMinX mb \<le> x \<and> x \<le> getMaxX mb \<and>
         unmasked_at msk bitmask mb x y"
  using assms(1,2)
proof (induction ss)
  case Nil
  then show ?case by (simp add: pixels_Nil)
next
  case (Cons s ss)
  have v: "getX0 s \<le> getX1 s" "valid_spans ss" using Cons.prems by (auto simp: valid_spans_def)
  have sw: "sorted_wrt span_before ss" "\<forall>t \<in> set ss. span_before s t" using Cons.prems by auto
  note ih = Cons.IH[OF v(2) sw(1)]
  show ?case
  proof (cases "getY s > getMaxY mb")
    case True
    have "\<forall>t \<in> set (s # ss). getY t > getMaxY mb" using True sw(2) before_y_le by fastforce
    then have "(x, y) \<in> pixels (s # ss) \<Longrightarrow> y > getMaxY mb"
      by (auto simp: pixels_def span_contains_def)
    then show ?thesis using True by (auto simp: pixels_Nil)
  next
    case False
    show ?thesis
    proof (cases "getX1 s < getMinX mb \<or> getX0 s > getMaxX mb")
      case True
      have "mask_spans msk bitmask mb (s # ss) = mask_spans msk bitmask mb ss"
        using True False by simp
      moreover have "span_contains s x y \<Longrightarrow> \<not> (getMinX mb \<le> x \<and> x \<le> getMaxX mb)"
        using True by (auto simp: span_contains_def)
      ultimately show ?thesis using ih by (auto simp: pixels_Cons)
    next
      case ov: False
      let ?R = "mask_one_span msk bitmask mb s"
      have eq: "mask_spans msk bitmask mb (s # ss) = ?R @ mask_spans msk bitmask mb ss"
        using ov False by simp
      from mask_one_span_correct[OF v(1) ov assms(3), of msk bitmask]
      have a: "\<forall>r \<in> set ?R. within r s"
        "\<And>x. (\<exists>r \<in> set ?R. getX0 r \<le> x \<and> x \<le> getX1 r) \<longleftrightarrow>
              (getX0 s \<le> x \<and> x \<le> getX1 s \<and> getMinX mb \<le> x \<and> x \<le> getMaxX mb \<and>
               unmasked_at msk bitmask mb x (getY s))"
        by blast+
      have "(x, y) \<in> pixels ?R \<longleftrightarrow> y = getY s \<and> (\<exists>r \<in> set ?R. getX0 r \<le> x \<and> x \<le> getX1 r)"
        using a(1) by (auto simp: pixels_def span_contains_def within_def)
      also have "\<dots> \<longleftrightarrow> span_contains s x y \<and> getMinX mb \<le> x \<and> x \<le> getMaxX mb \<and>
               unmasked_at msk bitmask mb x y"
        unfolding a(2) by (auto simp: span_contains_def)
      finally have R: "(x, y) \<in> pixels ?R \<longleftrightarrow> span_contains s x y \<and> getMinX mb \<le> x \<and> x \<le> getMaxX mb \<and>
               unmasked_at msk bitmask mb x y" .
      have "span_contains s x y \<Longrightarrow> y \<le> getMaxY mb" using False by (simp add: span_contains_def)
      moreover have "pixels (?R @ mask_spans msk bitmask mb ss) = pixels ?R \<union> pixels (mask_spans msk bitmask mb ss)"
        by (auto simp: pixels_def)
      ultimately show ?thesis unfolding eq using R ih by (auto simp: pixels_Cons)
    qed
  qed
qed


lemma skip_leading_result:
  assumes "skip_leading minY ss = Inr ss'" "sorted_wrt span_before ss"
  shows "set ss' \<subseteq> set ss \<and> sorted_wrt span_before ss' \<and>
         (\<forall>s \<in> set ss'. minY \<le> getY s) \<and> (\<forall>s \<in> set ss. s \<notin> set ss' \<longrightarrow> getY s < minY)"
  using assms
proof (induction ss)
  case Nil
  then show ?case by simp
next
  case (Cons s ss)
  show ?case
  proof (cases "getY s < minY")
    case True
    then show ?thesis using Cons by auto
  next
    case False
    then have "ss' = s # ss" using Cons.prems(1) by simp
    moreover have "\<forall>t \<in> set ss. minY \<le> getY t"
      using Cons.prems(2) False before_y_le by fastforce
    ultimately show ?thesis using Cons.prems(2) False by auto
  qed
qed

lemma span_pixels_card:
  "getX0 s \<le> getX1 s \<Longrightarrow>
   finite {(x, y). span_contains s x y} \<and> int (card {(x, y). span_contains s x y}) = getWidth s"
proof -
  assume v: "getX0 s \<le> getX1 s"
  have eq: "{(x, y). span_contains s x y} = {getX0 s..getX1 s} \<times> {getY s}"
    by (auto simp: span_contains_def)
  show ?thesis unfolding eq using v by (simp add: getWidth_def)
qed

lemma pixels_card:
  "sorted_wrt span_before ss \<Longrightarrow> valid_spans ss \<Longrightarrow>
   finite (pixels ss) \<and> int (card (pixels ss)) = sum_list (map getWidth ss)"
proof (induction ss)
  case Nil
  then show ?case by (simp add: pixels_Nil)
next
  case (Cons s ss)
  have v: "getX0 s \<le> getX1 s" "valid_spans ss" using Cons.prems by (auto simp: valid_spans_def)
  have sw: "sorted_wrt span_before ss" "\<forall>t \<in> set ss. span_before s t" using Cons.prems by auto
  from Cons.IH[OF sw(1) v(2)] have ih: "finite (pixels ss)" "int (card (pixels ss)) = sum_list (map getWidth ss)"
    by auto
  from span_pixels_card[OF v(1)] have sp: "finite {(x, y). span_contains s x y}"
    "int (card {(x, y). span_contains s x y}) = getWidth s" by auto
  have disj: "{(x, y). span_contains s x y} \<inter> pixels ss = {}"
    using sw(2) by (fastforce simp: pixels_def span_contains_def span_before_def)
  have "card (pixels (s # ss)) = card {(x, y). span_contains s x y} + card (pixels ss)"
    unfolding pixels_Cons using card_Un_disjoint[OF sp(1) ih(1) disj] .
  then show ?case using ih sp by (simp add: pixels_Cons)
qed

lemma normal_spans_successively:
  "sorted (map span_key ss) \<Longrightarrow> row_separated ss \<Longrightarrow> successively span_before ss"
proof (induction ss rule: induct_list012)
  case 1
  then show ?case by simp
next
  case (2 x)
  then show ?case by simp
next
  case (3 x y zs)
  have "span_key x \<le> span_key y" using 3(3) by simp
  then have "getY x \<le> getY y" by (auto simp: span_key_def less_eq_prod_def)
  moreover have "getY x = getY y \<longrightarrow> getX1 x + 1 < getX0 y"
    using 3(4) by (simp add: row_separated_def)
  ultimately have "span_before x y" by (auto simp: span_before_def)
  moreover have "successively span_before (y # zs)"
    using 3(2,3,4) by (simp add: row_separated_def)
  ultimately show ?case by simp
qed

lemma successively_before_sorted_wrt:
  assumes "successively span_before ss" "valid_spans ss"
  shows "sorted_wrt span_before ss"
proof -
  have tr: "\<And>a b c. a \<in> set ss \<Longrightarrow> b \<in> set ss \<Longrightarrow> c \<in> set ss \<Longrightarrow>
      span_before a b \<Longrightarrow> span_before b c \<Longrightarrow> span_before a c"
    using assms(2) by (fastforce simp: span_before_def valid_spans_def)
  show ?thesis
    using successively_iff_sorted_wrt_strong[of ss span_before] tr assms(1) by blast
qed

lemma is_normal_sorted_wrt:
  assumes "is_normal f" "valid_spans (spans f)"
  shows "sorted_wrt span_before (spans f)"
  using assms normal_spans_successively successively_before_sorted_wrt
  by (simp add: is_normal_def)

lemma box_contains_bounds:
  "box_contains mb x y \<longleftrightarrow>
   getMinX mb \<le> x \<and> x \<le> getMaxX mb \<and> getMinY mb \<le> y \<and> y \<le> getMaxY mb"
  by (cases mb) auto

lemma img_getBBox_cols: "getMinX (img_getBBox msk) \<le> getMaxX (img_getBBox msk) + 1"
  by (simp add: img_getBBox_def)

lemma unmasked_at_pixel_at:
  "box_contains (img_getBBox msk) x y \<Longrightarrow>
   unmasked_at msk bitmask (img_getBBox msk) x y = (pixel_at msk x y AND bitmask = 0)"
  by (auto simp: img_getBBox_def unmasked_at_def pixel_at_def split: if_splits)

lemma intersectMask_spans:
  assumes n: "normalized f" "is_normal f" "valid_spans (spans f)"
    and r: "intersectMask f msk bitmask = Inr f'"
  shows "pixels (spans f') = kept_pixels f msk bitmask \<and>
         sorted_wrt span_before (spans f') \<and> valid_spans (spans f') \<and>
         area f' = sum_list (map getWidth (spans f')) \<and>
         bbox f' = box_clip (bbox f) (img_getBBox msk) \<and>
         (\<forall>s \<in> set (spans f'). getMinX (img_getBBox msk) \<le> getX0 s \<and> getX1 s \<le> getMaxX (img_getBBox msk))"
proof -
  let ?mb = "img_getBBox msk"
  have nf: "normalize f = f" using n(1) by (simp add: normalize_def)
  obtain ss where sk: "skip_leading (getMinY ?mb) (spans f) = Inr ss"
    and f': "f' = f \<lparr> area := sum_list (map getWidth (mask_spans msk bitmask ?mb ss)),
                      spans := mask_spans msk bitmask ?mb ss,
                      bbox := box_clip (bbox f) ?mb \<rparr>"
    using r nf by (auto simp: intersectMask_def Let_def split: sum.splits)
  have sw: "sorted_wrt span_before (spans f)" using is_normal_sorted_wrt[OF n(2,3)] .
  from skip_leading_result[OF sk sw] have
    sub: "set ss \<subseteq> set (spans f)" and sws: "sorted_wrt span_before ss" and
    ge: "\<forall>s \<in> set ss. getMinY ?mb \<le> getY s" and
    lt: "\<forall>s \<in> set (spans f). s \<notin> set ss \<longrightarrow> getY s < getMinY ?mb" by auto
  have vs: "valid_spans ss" using sub n(3) by (auto simp: valid_spans_def)
  have px: "(x, y) \<in> pixels ss \<longleftrightarrow> (x, y) \<in> pixels (spans f) \<and> getMinY ?mb \<le> y" for x y
    using sub ge lt by (fastforce simp: pixels_def span_contains_def)
  have 1: "pixels (mask_spans msk bitmask ?mb ss) = kept_pixels f msk bitmask"
  proof (rule set_eqI, clarify)
    fix x y
    show "(x, y) \<in> pixels (mask_spans msk bitmask ?mb ss) \<longleftrightarrow> (x, y) \<in> kept_pixels f msk bitmask"
      unfolding mask_spans_pixels[OF vs sws img_getBBox_cols] px kept_pixels_def
      using unmasked_at_pixel_at[of msk x y bitmask] box_contains_bounds[of ?mb x y] by auto
  qed
  have 2: "sorted_wrt span_before (mask_spans msk bitmask ?mb ss)"
    using mask_spans_sorted[OF vs sws img_getBBox_cols] .
  have 3: "\<forall>r \<in> set (mask_spans msk bitmask ?mb ss). getX0 r \<le> getX1 r \<and>
     getMinX ?mb \<le> getX0 r \<and> getX1 r \<le> getMaxX ?mb"
    using mask_spans_within[OF vs img_getBBox_cols, of msk bitmask] by blast
  show ?thesis using 1 2 3 f' by (simp add: valid_spans_def)
qed

text \<open>
  Claim C2. For every normalized footprint, mask and bitmask, when \<open>intersectMask\<close>
  returns: every pixel of every surviving span lies in the mask and its mask pixel has
  none of the bits of the bitmask; the surviving spans cover exactly the kept pixels; the
  area is the number of kept pixels and at most the original area; the bounding box is
  the original one clipped to the mask's.
\<close>

theorem intersectMask_postcondition:
  assumes "normalized f" "is_normal f" "valid_spans (spans f)"
    and "intersectMask f msk bitmask = Inr f'"
  shows "(\<forall>s \<in> set (spans f'). \<forall>x. getX0 s \<le> x \<and> x \<le> getX1 s \<longrightarrow>
            box_contains (img_getBBox msk) x (getY s) \<and> pixel_at msk x (getY s) AND bitmask = 0) \<and>
         pixels (spans f') = kept_pixels f msk bitmask \<and>
         area f' = int (card (kept_pixels f msk bitmask)) \<and>
         area f' \<le> area f \<and>
         bbox f' = box_clip (bbox f) (img_getBBox msk)"
proof -
  from intersectMask_spans[OF assms] have
    px: "pixels (spans f') = kept_pixels f msk bitmask" and
    sw: "sorted_wrt span_before (spans f')" and vs: "valid_spans (spans f')" and
    ar: "area f' = sum_list (map getWidth (spans f'))" and
    bb: "bbox f' = box_clip (bbox f) (img_getBBox msk)" by auto
  have 1: "\<forall>s \<in> set (spans f'). \<forall>x. getX0 s \<le> x \<and> x \<le> getX1 s \<longrightarrow>
            box_contains (img_getBBox msk) x (getY s) \<and> pixel_at msk x (getY s) AND bitmask = 0"
  proof (intro ballI allI impI)
    fix s x assume "s \<in> set (spans f')" "getX0 s \<le> x \<and> x \<le> getX1 s"
    then have "(x, getY s) \<in> pixels (spans f')" by (auto simp: pixels_def span_contains_def)
    then show "box_contains (img_getBBox msk) x (getY s) \<and> pixel_at msk x (getY s) AND bitmask = 0"
      unfolding px by (simp add: kept_pixels_def)
  qed
  from pixels_card[OF sw vs] have c: "int (card (pixels (spans f'))) = area f'" using ar by simp
  have sw0: "sorted_wrt span_before (spans f)" using is_normal_sorted_wrt[OF assms(2,3)] .
  from pixels_card[OF sw0 assms(3)] have
    fin: "finite (pixels (spans f))" and c0: "int (card (pixels (spans f))) = area f"
    using assms(2) by (auto simp: is_normal_def)
  have "kept_pixels f msk bitmask \<subseteq> pixels (spans f)" by (auto simp: kept_pixels_def)
  then have "card (kept_pixels f msk bitmask) \<le> card (pixels (spans f))"
    using fin card_mono by blast
  then have le: "area f' \<le> area f" using c c0 px by simp
  show ?thesis using 1 px c le bb by simp
qed

lemma strip_reachable: "addSpanInSeries Footprint_default 0 0 3 = Inr strip_footprint"
  by (simp add: addSpanInSeries_def addSpan_def Footprint_default_def strip_footprint_def getWidth_def
      int_succ_def INT_MAX_def)

theorem intersectMask_postcondition_witness:
  "intersectMask strip_footprint striped_mask 1 =
     Inr (strip_footprint \<lparr> area := 2, spans := [Span 0 0 0, Span 0 2 2], bbox := Box 0 0 2 0 \<rparr>) \<and>
   card (kept_pixels strip_footprint striped_mask 1) = 2"
proof -
  have n: "normalized strip_footprint" by (simp add: strip_footprint_def)
  have i: "is_normal strip_footprint"
    by (simp add: strip_footprint_def is_normal_def row_separated_def tight_bbox_def getWidth_def)
  have v: "valid_spans (spans strip_footprint)" by (simp add: strip_footprint_def valid_spans_def)
  have u: "[0..2::int] = [0, 1, 2]" by (simp add: upto.simps)
  have e: "intersectMask strip_footprint striped_mask 1 =
     Inr (strip_footprint \<lparr> area := 2, spans := [Span 0 0 0, Span 0 2 2], bbox := Box 0 0 2 0 \<rparr>)"
    by (simp add: intersectMask_def strip_footprint_def striped_mask_def normalize_def img_getBBox_def
        mask_one_span_def getWidth_def Let_def u)
  from intersectMask_postcondition[OF n i v e] show ?thesis using e by simp
qed

section \<open>Edge pixels of a rectangle: proofs\<close>

lemma addSpan_spans: "x0 \<le> x1 \<Longrightarrow> spans (addSpan e y x0 x1) = spans e @ [Span y x0 x1]"
  by (simp add: addSpan_def)

lemma addSpan_area: "x0 \<le> x1 \<Longrightarrow> area (addSpan e y x0 x1) = area e + getWidth (Span y x0 x1)"
  by (simp add: addSpan_def)


















lemma pixels_mem: "(x, v) \<in> pixels ss \<longleftrightarrow> (\<exists>s \<in> set ss. span_contains s x v)"
  by (simp add: pixels_def)






section \<open>Merging: proofs\<close>

declare absorb.simps [simp del]

lemma absorb_A:
  "continues y x1 aSpan \<Longrightarrow>
   absorb y x1 aSpan bSpan = absorb y (max x1 (getX1 (hd aSpan))) (tl aSpan) bSpan"
  by (subst absorb.simps) (simp add: continues_def)

lemma absorb_B:
  "\<not> continues y x1 aSpan \<Longrightarrow> continues y x1 bSpan \<Longrightarrow>
   absorb y x1 aSpan bSpan = absorb y (max x1 (getX1 (hd bSpan))) aSpan (tl bSpan)"
  by (subst absorb.simps) (auto simp: continues_def)

lemma absorb_stop:
  "\<not> continues y x1 aSpan \<Longrightarrow> \<not> continues y x1 bSpan \<Longrightarrow>
   absorb y x1 aSpan bSpan = (x1, aSpan, bSpan)"
  by (subst absorb.simps) (auto simp: continues_def)

lemma continues_mono:
  assumes "continues y x1 ss" "x1 \<le> x1'" "x1' < INT_MAX"
  shows "continues y x1' ss"
proof -
  have "getX0 (hd ss) \<le> int_succ x1" using assms(1) by (simp add: continues_def)
  also have "\<dots> \<le> x1 + 1" by (rule int_succ_le)
  also have "\<dots> \<le> int_succ x1'" using assms(2,3) by (simp add: int_succ_eq)
  finally show ?thesis using assms(1) by (simp add: continues_def)
qed

lemma continues_hd: "continues y x1 ss \<Longrightarrow> hd ss \<in> set ss"
  by (simp add: continues_def)

text \<open>A span of the second list that continues the run can be taken first.\<close>

lemma absorb_second:
  "continues y x1 bSpan \<Longrightarrow> x1 < INT_MAX \<Longrightarrow> columns_inside aSpan \<Longrightarrow> columns_inside bSpan \<Longrightarrow>
   absorb y x1 aSpan bSpan = absorb y (max x1 (getX1 (hd bSpan))) aSpan (tl bSpan)"
proof (induction aSpan arbitrary: x1)
  case Nil
  have "\<not> continues y x1 []" by (simp add: continues_def)
  then show ?case using Nil by (simp add: absorb_B)
next
  case (Cons a aSpan)
  have ia: "getX1 a < INT_MAX" "columns_inside aSpan"
    using Cons.prems(3) by (simp_all add: columns_inside_def)
  have ib: "getX1 (hd bSpan) < INT_MAX"
    using continues_hd[OF Cons.prems(1)] Cons.prems(4) by (simp add: columns_inside_def)
  show ?case
  proof (cases "continues y x1 (a # aSpan)")
    case True
    have c1: "continues y (max x1 (getX1 a)) bSpan"
      using continues_mono[OF Cons.prems(1), of "max x1 (getX1 a)"] Cons.prems(2) ia(1) by simp
    have c2: "continues y (max x1 (getX1 (hd bSpan))) (a # aSpan)"
      using continues_mono[OF True, of "max x1 (getX1 (hd bSpan))"] Cons.prems(2) ib by simp
    have m: "max x1 (getX1 a) < INT_MAX" using Cons.prems(2) ia(1) by simp
    have "absorb y x1 (a # aSpan) bSpan = absorb y (max x1 (getX1 a)) aSpan bSpan"
      using absorb_A[OF True] by simp
    also have "\<dots> = absorb y (max (max x1 (getX1 a)) (getX1 (hd bSpan))) aSpan (tl bSpan)"
      using Cons.IH[OF c1 m ia(2) Cons.prems(4)] .
    also have "\<dots> = absorb y (max (max x1 (getX1 (hd bSpan))) (getX1 a)) aSpan (tl bSpan)"
      by (simp add: max.commute max.left_commute)
    also have "\<dots> = absorb y (max x1 (getX1 (hd bSpan))) (a # aSpan) (tl bSpan)"
      using absorb_A[OF c2] by simp
    finally show ?thesis .
  next
    case False
    then show ?thesis using Cons.prems by (simp add: absorb_B)
  qed
qed

lemma columns_inside_tl: "columns_inside ss \<Longrightarrow> columns_inside (tl ss)"
  by (cases ss) (simp_all add: columns_inside_def)

lemma columns_inside_hd: "columns_inside ss \<Longrightarrow> ss \<noteq> [] \<Longrightarrow> INT_MIN < getX0 (hd ss) \<and> getX1 (hd ss) < INT_MAX"
  by (cases ss) (simp_all add: columns_inside_def)

lemma absorb_sym:
  "absorb y x1 aSpan bSpan = (x1', aSpan', bSpan') \<Longrightarrow>
   x1 < INT_MAX \<Longrightarrow> columns_inside aSpan \<Longrightarrow> columns_inside bSpan \<Longrightarrow>
   absorb y x1 bSpan aSpan = (x1', bSpan', aSpan')"
proof (induction y x1 aSpan bSpan rule: absorb.induct)
  case (1 y x1 aSpan bSpan)
  show ?case
  proof (cases "continues y x1 aSpan")
    case True
    then have c: "aSpan \<noteq> [] \<and> getY (hd aSpan) = y \<and> getX0 (hd aSpan) \<le> int_succ x1"
      by (simp add: continues_def)
    have m: "max x1 (getX1 (hd aSpan)) < INT_MAX"
      using "1.prems"(2) columns_inside_hd[OF "1.prems"(3)] c by simp
    have "absorb y (max x1 (getX1 (hd aSpan))) (tl aSpan) bSpan = (x1', aSpan', bSpan')"
      using "1.prems"(1) absorb_A[OF True] by simp
    from "1.IH"(1)[OF c this m columns_inside_tl[OF "1.prems"(3)] "1.prems"(4)]
    show ?thesis using absorb_second[OF True "1.prems"(2,4,3)] by simp
  next
    case False
    then have nc: "\<not> (aSpan \<noteq> [] \<and> getY (hd aSpan) = y \<and> getX0 (hd aSpan) \<le> int_succ x1)"
      by (simp add: continues_def)
    show ?thesis
    proof (cases "continues y x1 bSpan")
      case True
      then have c: "bSpan \<noteq> [] \<and> getY (hd bSpan) = y \<and> getX0 (hd bSpan) \<le> int_succ x1"
        by (simp add: continues_def)
      have m: "max x1 (getX1 (hd bSpan)) < INT_MAX"
        using "1.prems"(2) columns_inside_hd[OF "1.prems"(4)] c by simp
      have "absorb y (max x1 (getX1 (hd bSpan))) aSpan (tl bSpan) = (x1', aSpan', bSpan')"
        using "1.prems"(1) absorb_B[OF False True] by simp
      from "1.IH"(2)[OF nc c this m "1.prems"(3) columns_inside_tl[OF "1.prems"(4)]]
      show ?thesis using absorb_A[OF True, of aSpan] by simp
    next
      case nb: False
      then show ?thesis using "1.prems"(1) False by (simp add: absorb_stop)
    qed
  qed
qed

lemma add_remaining_sym:
  "aSpan = [] \<or> bSpan = [] \<Longrightarrow> add_remaining foot aSpan bSpan = add_remaining foot bSpan aSpan"
  by (auto simp: add_remaining_def split: sum.splits)

lemma merge_loop_Nil2: "merge_loop foot aSpan [] = add_remaining foot aSpan []"
  by (cases aSpan) simp_all

lemma merge_loop_A:
  "earlier a b \<Longrightarrow>
   merge_loop foot (a # aRest) (b # bRest) =
   (case addSpanInSeries foot (getY a) (getX0 a) (getX1 a) of
      Inl e \<Rightarrow> Inl e
    | Inr foot' \<Rightarrow> merge_loop foot' aRest (b # bRest))"
  by (simp add: earlier_def Let_def)

lemma merge_loop_B:
  "\<not> earlier a b \<Longrightarrow> earlier b a \<Longrightarrow>
   merge_loop foot (a # aRest) (b # bRest) =
   (case addSpanInSeries foot (getY b) (getX0 b) (getX1 b) of
      Inl e \<Rightarrow> Inl e
    | Inr foot' \<Rightarrow> merge_loop foot' (a # aRest) bRest)"
  by (auto simp add: earlier_def Let_def)

lemma merge_loop_O:
  "\<not> earlier a b \<Longrightarrow> \<not> earlier b a \<Longrightarrow>
   merge_loop foot (a # aRest) (b # bRest) =
   (case absorb (getY a) (max (getX1 a) (getX1 b)) aRest bRest of
      (x1', aSpan, bSpan) \<Rightarrow>
        (case addSpanInSeries foot (getY a) (min (getX0 a) (getX0 b)) x1' of
           Inl e \<Rightarrow> Inl e
         | Inr foot' \<Rightarrow> merge_loop foot' aSpan bSpan))"
  by (auto simp add: earlier_def Let_def)

lemma earlier_same_row: "\<not> earlier a b \<Longrightarrow> \<not> earlier b a \<Longrightarrow> getY a = getY b"
  by (auto simp: earlier_def)

lemma earlier_asym:
  "getX0 a \<le> getX1 a \<Longrightarrow> getX0 b \<le> getX1 b \<Longrightarrow> INT_MIN < getX0 a \<Longrightarrow> INT_MIN < getX0 b \<Longrightarrow>
   earlier a b \<Longrightarrow> \<not> earlier b a"
  by (auto simp: earlier_def int_pred_eq)

declare merge_loop.simps(3) [simp del]

lemma absorb_subset:
  "absorb y x1 aSpan bSpan = (x1', aSpan', bSpan') \<Longrightarrow>
   set aSpan' \<subseteq> set aSpan \<and> set bSpan' \<subseteq> set bSpan"
proof (induction y x1 aSpan bSpan rule: absorb.induct)
  case (1 y x1 aSpan bSpan)
  show ?case
  proof (cases "continues y x1 aSpan")
    case True
    then have c: "aSpan \<noteq> [] \<and> getY (hd aSpan) = y \<and> getX0 (hd aSpan) \<le> int_succ x1"
      by (simp add: continues_def)
    have "absorb y (max x1 (getX1 (hd aSpan))) (tl aSpan) bSpan = (x1', aSpan', bSpan')"
      using "1.prems" absorb_A[OF True] by simp
    from "1.IH"(1)[OF c this] show ?thesis using c by (auto dest: list.set_sel(2))
  next
    case False
    then have nc: "\<not> (aSpan \<noteq> [] \<and> getY (hd aSpan) = y \<and> getX0 (hd aSpan) \<le> int_succ x1)"
      by (simp add: continues_def)
    show ?thesis
    proof (cases "continues y x1 bSpan")
      case True
      then have c: "bSpan \<noteq> [] \<and> getY (hd bSpan) = y \<and> getX0 (hd bSpan) \<le> int_succ x1"
        by (simp add: continues_def)
      have "absorb y (max x1 (getX1 (hd bSpan))) aSpan (tl bSpan) = (x1', aSpan', bSpan')"
        using "1.prems" absorb_B[OF False True] by simp
      from "1.IH"(2)[OF nc c this] show ?thesis using c by (auto dest: list.set_sel(2))
    next
      case nb: False
      then show ?thesis using "1.prems" False by (simp add: absorb_stop)
    qed
  qed
qed

lemma columns_inside_subset: "set ss \<subseteq> set ts \<Longrightarrow> columns_inside ts \<Longrightarrow> columns_inside ss"
  by (auto simp: columns_inside_def)

lemma merge_loop_sym:
  "valid_spans aSpan \<Longrightarrow> valid_spans bSpan \<Longrightarrow> columns_inside aSpan \<Longrightarrow> columns_inside bSpan \<Longrightarrow>
   merge_loop foot aSpan bSpan = merge_loop foot bSpan aSpan"
proof (induction foot aSpan bSpan rule: merge_loop.induct)
  case (1 foot bSpan)
  then show ?case by (simp add: merge_loop_Nil2 add_remaining_sym)
next
  case (2 foot a aRest)
  then show ?case by (simp add: add_remaining_sym)
next
  case (3 foot a aRest b bRest)
  have va: "getX0 a \<le> getX1 a" "valid_spans aRest" and vb: "getX0 b \<le> getX1 b" "valid_spans bRest"
    using "3.prems" by (auto simp: valid_spans_def)
  have ia: "INT_MIN < getX0 a" "getX1 a < INT_MAX" "columns_inside aRest"
    and ib: "INT_MIN < getX0 b" "getX1 b < INT_MAX" "columns_inside bRest"
    using "3.prems"(3,4) by (simp_all add: columns_inside_def)
  show ?case
  proof (cases "earlier a b")
    case True
    then have A: "getY a < getY b \<or> (getY a = getY b \<and> getX1 a < int_pred (getX0 b))"
      by (simp add: earlier_def)
    have nB: "\<not> earlier b a" using earlier_asym[OF va(1) vb(1) ia(1) ib(1) True] .
    have ih: "\<And>foot'. addSpanInSeries foot (getY a) (getX0 a) (getX1 a) = Inr foot' \<Longrightarrow>
         merge_loop foot' aRest (b # bRest) = merge_loop foot' (b # bRest) aRest"
      using "3.IH"(1)[OF refl refl refl refl refl refl A _ va(2) "3.prems"(2) ia(3) "3.prems"(4)] by simp
    show ?thesis
      unfolding merge_loop_A[OF True] merge_loop_B[OF nB True]
      using ih by (simp split: sum.splits)
  next
    case nA: False
    then have nA': "\<not> (getY a < getY b \<or> (getY a = getY b \<and> getX1 a < int_pred (getX0 b)))"
      by (simp add: earlier_def)
    show ?thesis
    proof (cases "earlier b a")
      case True
      then have B: "getY b < getY a \<or> (getY a = getY b \<and> getX1 b < int_pred (getX0 a))"
        by (auto simp add: earlier_def)
      have ih: "\<And>foot'. addSpanInSeries foot (getY b) (getX0 b) (getX1 b) = Inr foot' \<Longrightarrow>
         merge_loop foot' (a # aRest) bRest = merge_loop foot' bRest (a # aRest)"
        using "3.IH"(2)[OF refl refl refl refl refl refl nA' B _ "3.prems"(1) vb(2) "3.prems"(3) ib(3)] by simp
      show ?thesis
        unfolding merge_loop_B[OF nA True] merge_loop_A[OF True]
        using ih by (simp split: sum.splits)
    next
      case nB: False
      then have nB': "\<not> (getY b < getY a \<or> (getY a = getY b \<and> getX1 b < int_pred (getX0 a)))"
        by (auto simp add: earlier_def)
      have y: "getY b = getY a" using earlier_same_row[OF nA nB] by simp
      obtain x1' aSpan bSpan where ab: "absorb (getY a) (max (getX1 a) (getX1 b)) aRest bRest = (x1', aSpan, bSpan)"
        by (metis surj_pair)
      have m: "max (getX1 a) (getX1 b) < INT_MAX" using ia(2) ib(2) by simp
      have ba: "absorb (getY b) (max (getX1 b) (getX1 a)) bRest aRest = (x1', bSpan, aSpan)"
        using absorb_sym[OF ab m ia(3) ib(3)] y by (simp add: max.commute)
      from absorb_subset[OF ab] have sub: "set aSpan \<subseteq> set aRest" "set bSpan \<subseteq> set bRest" by auto
      have v: "valid_spans aSpan" "valid_spans bSpan" using sub va(2) vb(2) by (auto simp: valid_spans_def)
      have i: "columns_inside aSpan" "columns_inside bSpan"
        using columns_inside_subset[OF sub(1) ia(3)] columns_inside_subset[OF sub(2) ib(3)] by auto
      have ih: "\<And>foot'. addSpanInSeries foot (getY a) (min (getX0 a) (getX0 b)) x1' = Inr foot' \<Longrightarrow>
         merge_loop foot' aSpan bSpan = merge_loop foot' bSpan aSpan"
        using "3.IH"(3)[OF refl refl refl refl refl refl nA' nB' ab[symmetric] refl _ v i] by simp
      show ?thesis
        unfolding merge_loop_O[OF nA nB] merge_loop_O[OF nB nA] ab ba
        using ih y by (simp add: min.commute split: sum.splits)
    qed
  qed
qed

lemma span_before_trans:
  "span_before a b \<Longrightarrow> span_before b c \<Longrightarrow> getX0 b \<le> getX1 b \<Longrightarrow> span_before a c"
  by (auto simp: span_before_def)

lemma addSpanInSeries_append:
  assumes "spans foot = [] \<or> span_before (last (spans foot)) (Span y x0 x1)" "x0 \<le> x1"
  shows "\<exists>foot'. addSpanInSeries foot y x0 x1 = Inr foot' \<and> spans foot' = spans foot @ [Span y x0 x1]"
  using assms int_succ_le[of "getX1 (last (spans foot))"]
  by (auto simp: addSpanInSeries_def addSpan_def span_before_def Let_def)

lemma add_all_ok:
  "sorted_wrt span_before ss \<Longrightarrow> valid_spans ss \<Longrightarrow> ready foot ss \<Longrightarrow>
   \<exists>f. add_all foot ss = Inr f"
proof (induction ss arbitrary: foot)
  case Nil
  then show ?case by simp
next
  case (Cons s ss)
  have v: "getX0 s \<le> getX1 s" "valid_spans ss" using Cons.prems(2) by (auto simp: valid_spans_def)
  have "spans foot = [] \<or> span_before (last (spans foot)) (Span (getY s) (getX0 s) (getX1 s))"
    using Cons.prems(3) by (auto simp: ready_def)
  from addSpanInSeries_append[OF this v(1)]
  obtain foot' where f: "addSpanInSeries foot (getY s) (getX0 s) (getX1 s) = Inr foot'"
    "spans foot' = spans foot @ [s]" by auto
  have "ready foot' ss" using f(2) Cons.prems(1) by (simp add: ready_def)
  from Cons.IH[OF _ v(2) this] Cons.prems(1) obtain g where "add_all foot' ss = Inr g" by auto
  then show ?case using f(1) by simp
qed

lemma absorb_result:
  assumes "absorb y x1 aSpan bSpan = (x1', aSpan', bSpan')"
  shows "x1 \<le> x1' \<and> (\<exists>pa. aSpan = pa @ aSpan') \<and> (\<exists>pb. bSpan = pb @ bSpan') \<and>
         \<not> continues y x1' aSpan' \<and> \<not> continues y x1' bSpan'"
  using assms
proof (induction y x1 aSpan bSpan rule: absorb.induct)
  case (1 y x1 aSpan bSpan)
  show ?case
  proof (cases "continues y x1 aSpan")
    case True
    then have c: "aSpan \<noteq> [] \<and> getY (hd aSpan) = y \<and> getX0 (hd aSpan) \<le> int_succ x1"
      by (simp add: continues_def)
    have "absorb y (max x1 (getX1 (hd aSpan))) (tl aSpan) bSpan = (x1', aSpan', bSpan')"
      using "1.prems" absorb_A[OF True] by simp
    from "1.IH"(1)[OF c this] obtain pa where
      r: "max x1 (getX1 (hd aSpan)) \<le> x1'" "tl aSpan = pa @ aSpan'" "\<exists>pb. bSpan = pb @ bSpan'"
         "\<not> continues y x1' aSpan'" "\<not> continues y x1' bSpan'" by auto
    have "aSpan = (hd aSpan # pa) @ aSpan'" using r(2) c by (cases aSpan) auto
    then show ?thesis using r by fastforce
  next
    case False
    then have nc: "\<not> (aSpan \<noteq> [] \<and> getY (hd aSpan) = y \<and> getX0 (hd aSpan) \<le> int_succ x1)"
      by (simp add: continues_def)
    show ?thesis
    proof (cases "continues y x1 bSpan")
      case True
      then have c: "bSpan \<noteq> [] \<and> getY (hd bSpan) = y \<and> getX0 (hd bSpan) \<le> int_succ x1"
        by (simp add: continues_def)
      have "absorb y (max x1 (getX1 (hd bSpan))) aSpan (tl bSpan) = (x1', aSpan', bSpan')"
        using "1.prems" absorb_B[OF False True] by simp
      from "1.IH"(2)[OF nc c this] obtain pb where
        r: "max x1 (getX1 (hd bSpan)) \<le> x1'" "\<exists>pa. aSpan = pa @ aSpan'" "tl bSpan = pb @ bSpan'"
         "\<not> continues y x1' aSpan'" "\<not> continues y x1' bSpan'" by auto
      have "bSpan = (hd bSpan # pb) @ bSpan'" using r(3) c by (cases bSpan) auto
      then show ?thesis using r by fastforce
    next
      case nb: False
      then show ?thesis using "1.prems" False by (auto simp add: absorb_stop)
    qed
  qed
qed

lemma absorb_bound:
  "absorb y x1 aSpan bSpan = (x1', aSpan', bSpan') \<Longrightarrow>
   x1 < INT_MAX \<Longrightarrow> columns_inside aSpan \<Longrightarrow> columns_inside bSpan \<Longrightarrow> x1' < INT_MAX"
proof (induction y x1 aSpan bSpan rule: absorb.induct)
  case (1 y x1 aSpan bSpan)
  show ?case
  proof (cases "continues y x1 aSpan")
    case True
    then have c: "aSpan \<noteq> [] \<and> getY (hd aSpan) = y \<and> getX0 (hd aSpan) \<le> int_succ x1"
      by (simp add: continues_def)
    have m: "max x1 (getX1 (hd aSpan)) < INT_MAX"
      using "1.prems"(2) columns_inside_hd[OF "1.prems"(3)] c by simp
    have "absorb y (max x1 (getX1 (hd aSpan))) (tl aSpan) bSpan = (x1', aSpan', bSpan')"
      using "1.prems"(1) absorb_A[OF True] by simp
    from "1.IH"(1)[OF c this m columns_inside_tl[OF "1.prems"(3)] "1.prems"(4)] show ?thesis .
  next
    case False
    then have nc: "\<not> (aSpan \<noteq> [] \<and> getY (hd aSpan) = y \<and> getX0 (hd aSpan) \<le> int_succ x1)"
      by (simp add: continues_def)
    show ?thesis
    proof (cases "continues y x1 bSpan")
      case True
      then have c: "bSpan \<noteq> [] \<and> getY (hd bSpan) = y \<and> getX0 (hd bSpan) \<le> int_succ x1"
        by (simp add: continues_def)
      have m: "max x1 (getX1 (hd bSpan)) < INT_MAX"
        using "1.prems"(2) columns_inside_hd[OF "1.prems"(4)] c by simp
      have "absorb y (max x1 (getX1 (hd bSpan))) aSpan (tl bSpan) = (x1', aSpan', bSpan')"
        using "1.prems"(1) absorb_B[OF False True] by simp
      from "1.IH"(2)[OF nc c this m "1.prems"(3) columns_inside_tl[OF "1.prems"(4)]] show ?thesis .
    next
      case nb: False
      then show ?thesis using "1.prems"(1,2) False by (simp add: absorb_stop)
    qed
  qed
qed

text \<open>What is left after the run lies strictly after the merged span.\<close>

lemma after_run:
  assumes "sorted_wrt span_before ss" "valid_spans ss" "\<forall>s \<in> set ss. y \<le> getY s"
    "\<not> continues y x1 ss" "x1 < INT_MAX"
  shows "\<forall>s \<in> set ss. span_before (Span y x0 x1) s"
proof (cases ss)
  case Nil
  then show ?thesis by simp
next
  case (Cons h rest)
  have "y \<le> getY h" using assms(3) Cons by simp
  then have h: "span_before (Span y x0 x1) h"
    using assms(4,5) Cons by (auto simp: continues_def span_before_def int_succ_eq)
  have vh: "getX0 h \<le> getX1 h" using assms(2) Cons by (simp add: valid_spans_def)
  have "\<forall>s \<in> set rest. span_before h s" using assms(1) Cons by simp
  then have "\<forall>s \<in> set rest. span_before (Span y x0 x1) s"
    using span_before_trans[OF h _ vh] by blast
  then show ?thesis using h Cons by simp
qed

lemma earlier_before: "earlier a b \<Longrightarrow> INT_MIN < getX0 b \<Longrightarrow> span_before a b"
  by (auto simp: earlier_def span_before_def int_pred_eq)

lemma merge_loop_ok:
  "sorted_wrt span_before aSpan \<Longrightarrow> valid_spans aSpan \<Longrightarrow>
   sorted_wrt span_before bSpan \<Longrightarrow> valid_spans bSpan \<Longrightarrow>
   ready foot (aSpan @ bSpan) \<Longrightarrow> columns_inside aSpan \<Longrightarrow> columns_inside bSpan \<Longrightarrow>
   \<exists>f. merge_loop foot aSpan bSpan = Inr f"
proof (induction foot aSpan bSpan rule: merge_loop.induct)
  case (1 foot bSpan)
  then show ?case using add_all_ok[of bSpan foot] by (simp add: add_remaining_def)
next
  case (2 foot a aRest)
  then show ?case using add_all_ok[of "a # aRest" foot]
    by (auto simp add: add_remaining_def split: sum.splits)
next
  case (3 foot a aRest b bRest)
  have va: "getX0 a \<le> getX1 a" "valid_spans aRest" and vb: "getX0 b \<le> getX1 b" "valid_spans bRest"
    using "3.prems" by (auto simp: valid_spans_def)
  have sa: "sorted_wrt span_before aRest" "\<forall>s \<in> set aRest. span_before a s"
    and sb: "sorted_wrt span_before bRest" "\<forall>s \<in> set bRest. span_before b s"
    using "3.prems" by auto
  have rd: "spans foot = [] \<or> (span_before (last (spans foot)) a \<and> span_before (last (spans foot)) b)"
    using "3.prems"(5) by (auto simp: ready_def)
  have ia: "INT_MIN < getX0 a" "getX1 a < INT_MAX" "columns_inside aRest"
    and ib: "INT_MIN < getX0 b" "getX1 b < INT_MAX" "columns_inside bRest"
    using "3.prems"(6,7) by (simp_all add: columns_inside_def)
  show ?case
  proof (cases "earlier a b")
    case True
    then have A: "getY a < getY b \<or> (getY a = getY b \<and> getX1 a < int_pred (getX0 b))"
      by (simp add: earlier_def)
    have "spans foot = [] \<or> span_before (last (spans foot)) (Span (getY a) (getX0 a) (getX1 a))"
      using rd by auto
    from addSpanInSeries_append[OF this va(1)]
    obtain foot' where f: "addSpanInSeries foot (getY a) (getX0 a) (getX1 a) = Inr foot'"
      "spans foot' = spans foot @ [a]" by auto
    have ab: "span_before a b" using earlier_before[OF True ib(1)] .
    have "\<forall>s \<in> set bRest. span_before a s" using span_before_trans[OF ab _ vb(1)] sb(2) by blast
    then have r: "ready foot' (aRest @ b # bRest)" using f(2) sa(2) ab by (auto simp: ready_def)
    from "3.IH"(1)[OF refl refl refl refl refl refl A f(1) sa(1) va(2) "3.prems"(3,4) r ia(3) "3.prems"(7)]
    show ?thesis unfolding merge_loop_A[OF True] using f(1) by simp
  next
    case nA: False
    then have nA': "\<not> (getY a < getY b \<or> (getY a = getY b \<and> getX1 a < int_pred (getX0 b)))"
      by (simp add: earlier_def)
    show ?thesis
    proof (cases "earlier b a")
      case True
      then have B: "getY b < getY a \<or> (getY a = getY b \<and> getX1 b < int_pred (getX0 a))"
        by (auto simp add: earlier_def)
      have "spans foot = [] \<or> span_before (last (spans foot)) (Span (getY b) (getX0 b) (getX1 b))"
        using rd by auto
      from addSpanInSeries_append[OF this vb(1)]
      obtain foot' where f: "addSpanInSeries foot (getY b) (getX0 b) (getX1 b) = Inr foot'"
        "spans foot' = spans foot @ [b]" by auto
      have ba: "span_before b a" using earlier_before[OF True ia(1)] .
      have "\<forall>s \<in> set aRest. span_before b s" using span_before_trans[OF ba _ va(1)] sa(2) by blast
      then have r: "ready foot' ((a # aRest) @ bRest)" using f(2) sb(2) ba by (auto simp: ready_def)
      from "3.IH"(2)[OF refl refl refl refl refl refl nA' B f(1) "3.prems"(1,2) sb(1) vb(2) r "3.prems"(6) ib(3)]
      show ?thesis unfolding merge_loop_B[OF nA True] using f(1) by simp
    next
      case nB: False
      then have nB': "\<not> (getY b < getY a \<or> (getY a = getY b \<and> getX1 b < int_pred (getX0 a)))"
        by (auto simp add: earlier_def)
      have y: "getY b = getY a" using earlier_same_row[OF nA nB] by simp
      obtain x1' aSpan bSpan where ab: "absorb (getY a) (max (getX1 a) (getX1 b)) aRest bRest = (x1', aSpan, bSpan)"
        by (metis surj_pair)
      from absorb_result[OF ab] obtain pa pb where
        r: "max (getX1 a) (getX1 b) \<le> x1'" "aRest = pa @ aSpan" "bRest = pb @ bSpan"
           "\<not> continues (getY a) x1' aSpan" "\<not> continues (getY a) x1' bSpan" by auto
      have sa': "sorted_wrt span_before aSpan" "valid_spans aSpan" "\<forall>s \<in> set aSpan. getY a \<le> getY s"
        using sa va(2) r(2) before_y_le by (auto simp: sorted_wrt_append valid_spans_def)
      have sb': "sorted_wrt span_before bSpan" "valid_spans bSpan" "\<forall>s \<in> set bSpan. getY a \<le> getY s"
        using sb vb(2) r(3) before_y_le y by (fastforce simp: sorted_wrt_append valid_spans_def)+
      let ?M = "Span (getY a) (min (getX0 a) (getX0 b)) x1'"
      have vm: "min (getX0 a) (getX0 b) \<le> x1'" using va(1) r(1) by auto
      have "spans foot = [] \<or> span_before (last (spans foot)) ?M"
        using rd y by (auto simp: span_before_def min_def)
      from addSpanInSeries_append[OF this vm]
      obtain foot' where f: "addSpanInSeries foot (getY a) (min (getX0 a) (getX0 b)) x1' = Inr foot'"
        "spans foot' = spans foot @ [?M]" by auto
      have m: "max (getX1 a) (getX1 b) < INT_MAX" using ia(2) ib(2) by simp
      have xb: "x1' < INT_MAX" using absorb_bound[OF ab m ia(3) ib(3)] .
      from absorb_subset[OF ab] have sub: "set aSpan \<subseteq> set aRest" "set bSpan \<subseteq> set bRest" by auto
      have i: "columns_inside aSpan" "columns_inside bSpan"
        using columns_inside_subset[OF sub(1) ia(3)] columns_inside_subset[OF sub(2) ib(3)] by auto
      have "\<forall>s \<in> set (aSpan @ bSpan). span_before ?M s"
        using after_run[OF sa' r(4) xb] after_run[OF sb' r(5) xb] by auto
      then have rdy: "ready foot' (aSpan @ bSpan)" using f(2) by (simp add: ready_def)
      from "3.IH"(3)[OF refl refl refl refl refl refl nA' nB' ab[symmetric] refl f(1) sa'(1,2) sb'(1,2) rdy i]
      show ?thesis unfolding merge_loop_O[OF nA nB] ab using f(1) by simp
    qed
  qed
qed

lemma with_peaks_simps [simp]:
  "with_peaks p (Inl e) = Inl e" "with_peaks p (Inr f) = Inr (f \<lparr> peaks := p \<rparr>)"
  by (simp_all add: with_peaks_def)

lemma addSpanInSeries_peaks:
  "addSpanInSeries (foot \<lparr> peaks := p \<rparr>) y x0 x1 =
   with_peaks p (addSpanInSeries foot y x0 x1)"
  by (simp add: addSpanInSeries_def addSpan_def Let_def)

lemma add_all_peaks:
  "add_all (foot \<lparr> peaks := p \<rparr>) ss = with_peaks p (add_all foot ss)"
proof (induction ss arbitrary: foot)
  case Nil
  then show ?case by simp
next
  case (Cons s ss)
  show ?case
    by (cases "addSpanInSeries foot (getY s) (getX0 s) (getX1 s)")
       (simp_all add: addSpanInSeries_peaks Cons.IH)
qed

lemma add_remaining_peaks:
  "add_remaining (foot \<lparr> peaks := p \<rparr>) aSpan bSpan =
   with_peaks p (add_remaining foot aSpan bSpan)"
  by (cases "add_all foot aSpan") (simp_all add: add_remaining_def add_all_peaks)

lemma merge_loop_peaks:
  "merge_loop (foot \<lparr> peaks := p \<rparr>) aSpan bSpan =
   with_peaks p (merge_loop foot aSpan bSpan)"
proof (induction foot aSpan bSpan rule: merge_loop.induct)
  case (1 foot bSpan)
  then show ?case by (simp add: add_remaining_peaks)
next
  case (2 foot a aRest)
  then show ?case by (simp add: add_remaining_peaks)
next
  case (3 foot a aRest b bRest)
  show ?case
  proof (cases "earlier a b")
    case True
    then have A: "getY a < getY b \<or> (getY a = getY b \<and> getX1 a < int_pred (getX0 b))"
      by (simp add: earlier_def)
    show ?thesis unfolding merge_loop_A[OF True]
      using "3.IH"(1)[OF refl refl refl refl refl refl A]
      by (cases "addSpanInSeries foot (getY a) (getX0 a) (getX1 a)")
         (simp_all add: addSpanInSeries_peaks)
  next
    case nA: False
    then have nA': "\<not> (getY a < getY b \<or> (getY a = getY b \<and> getX1 a < int_pred (getX0 b)))"
      by (simp add: earlier_def)
    show ?thesis
    proof (cases "earlier b a")
      case True
      then have B: "getY b < getY a \<or> (getY a = getY b \<and> getX1 b < int_pred (getX0 a))"
        by (auto simp add: earlier_def)
      show ?thesis unfolding merge_loop_B[OF nA True]
        using "3.IH"(2)[OF refl refl refl refl refl refl nA' B]
        by (cases "addSpanInSeries foot (getY b) (getX0 b) (getX1 b)")
           (simp_all add: addSpanInSeries_peaks)
    next
      case nB: False
      then have nB': "\<not> (getY b < getY a \<or> (getY a = getY b \<and> getX1 b < int_pred (getX0 a)))"
        by (auto simp add: earlier_def)
      obtain x1' aSpan bSpan where ab: "absorb (getY a) (max (getX1 a) (getX1 b)) aRest bRest = (x1', aSpan, bSpan)"
        by (metis surj_pair)
      show ?thesis unfolding merge_loop_O[OF nA nB] ab
        using "3.IH"(3)[OF refl refl refl refl refl refl nA' nB' ab[symmetric] refl]
        by (cases "addSpanInSeries foot (getY a) (min (getX0 a) (getX0 b)) x1'")
           (simp_all add: addSpanInSeries_peaks)
    qed
  qed
qed

lemma merge_peaks_Inl:
  "peaks_clash a b \<Longrightarrow> merge_peaks fresh (peaks a) (peaks b) = Inl InvalidParameterError"
  by (simp add: merge_peaks_def peaks_clash_def)

lemma merge_peaks_Inr:
  "\<not> peaks_clash a b \<Longrightarrow> \<exists>p. merge_peaks fresh (peaks a) (peaks b) = Inr p"
  by (auto simp add: merge_peaks_def peaks_clash_def)

lemma peaks_clash_sym: "peaks_clash a b = peaks_clash b a"
  by (auto simp: peaks_clash_def)

lemma normalize_peaks_upd: "normalize (f \<lparr> peaks := p \<rparr>) = (normalize f) \<lparr> peaks := p \<rparr>"
  by (simp add: normalize_def Let_def split: list.splits prod.splits)

lemma mergeFootprints_core_commutes:
  assumes "sorted_wrt span_before (spans a)" "valid_spans (spans a)"
    "sorted_wrt span_before (spans b)" "valid_spans (spans b)"
    "columns_inside (spans a)" "columns_inside (spans b)"
  shows "if peaks_clash a b
         then mergeFootprints_core a b = Inl InvalidParameterError \<and>
              mergeFootprints_core b a = Inl InvalidParameterError
         else (\<exists>f g. mergeFootprints_core a b = Inr f \<and> mergeFootprints_core b a = Inr g \<and>
                 spans f = spans g \<and> area f = area g \<and>
                 spans (normalize f) = spans (normalize g) \<and>
                 area (normalize f) = area (normalize g))"
proof (cases "peaks_clash a b")
  case True
  then show ?thesis using merge_peaks_Inl[OF True] merge_peaks_Inl[of b a] peaks_clash_sym[of a b]
    by (simp add: mergeFootprints_core_def)
next
  case False
  then have nb: "\<not> peaks_clash b a" using peaks_clash_sym by simp
  obtain p where p: "merge_peaks (peaks Footprint_default) (peaks a) (peaks b) = Inr p"
    using merge_peaks_Inr[OF False] by blast
  obtain q where q: "merge_peaks (peaks Footprint_default) (peaks b) (peaks a) = Inr q"
    using merge_peaks_Inr[OF nb] by blast
  have "ready Footprint_default (spans a @ spans b)" by (simp add: ready_def Footprint_default_def)
  from merge_loop_ok[OF assms(1-4) this assms(5,6)] obtain F where F: "merge_loop Footprint_default (spans a) (spans b) = Inr F"
    by blast
  have F': "merge_loop Footprint_default (spans b) (spans a) = Inr F"
    using merge_loop_sym[OF assms(2,4,5,6)] F by simp
  have 1: "mergeFootprints_core a b = Inr (F \<lparr> peaks := p \<rparr>)"
    using p F by (simp add: mergeFootprints_core_def merge_loop_peaks)
  have 2: "mergeFootprints_core b a = Inr (F \<lparr> peaks := q \<rparr>)"
    using q F' by (simp add: mergeFootprints_core_def merge_loop_peaks)
  show ?thesis using False 1 2 by (simp add: normalize_peaks_upd)
qed

lemma normalize_ready_to_merge:
  assumes "valid_spans (spans a)" "normalized a \<longrightarrow> is_normal a" "columns_inside (spans a)"
  shows "sorted_wrt span_before (spans (normalize a)) \<and> valid_spans (spans (normalize a))"
proof (cases "normalized a")
  case True
  then have "normalize a = a" by (simp add: normalize_def)
  then show ?thesis using assms True is_normal_sorted_wrt by simp
next
  case False
  have "\<forall>s \<in> set (spans a). getX1 s < INT_MAX" using assms(3) by (simp add: columns_inside_def)
  from normalize_is_normal[OF assms(1) False this] show ?thesis using is_normal_sorted_wrt by blast
qed

lemma normalize_columns_inside:
  assumes "columns_inside (spans a)"
  shows "columns_inside (spans (normalize a))"
proof (cases "normalized a \<or> spans a = []")
  case True
  then show ?thesis using assms by (auto simp: normalize_def)
next
  case False
  then obtain lspan rest ss ar mn mx yl where
    1: "sort_spans (spans a) = lspan # rest" and
    2: "normalize_sweep lspan (getWidth lspan) (getX0 lspan) (getX1 lspan) rest = (ss, ar, mn, mx, yl)" and
    3: "normalize a = a \<lparr> spans := ss, area := ar,
                        bbox := Box2I_of_corners mn (getY lspan) mx yl, normalized := True \<rparr>"
    using normalize_nontrivial[of a] by blast
  have "set (lspan # rest) = set (spans a)" using 1 sort_spans_set[of "spans a"] by simp
  then have "columns_inside (lspan # rest)" using assms by (simp add: columns_inside_def)
  from sweep_columns[OF this] 2 have "columns_inside ss" by (metis fst_conv)
  then show ?thesis using 3 by simp
qed

lemma normalize_keeps_peaks: "peaks (normalize a) = peaks a"
  by (simp add: normalize_def Let_def split: list.splits prod.splits)

text \<open>
  Claim C3, as amended. For every pair of footprints (normalized before the core merge:
  spans with their columns in order, flags truthful) whose columns lie strictly between
  \<open>INT_MIN\<close> and \<open>INT_MAX\<close>, \<open>mergeFootprints(a, b)\<close> and \<open>mergeFootprints(b, a)\<close> produce
  footprints with identical span lists and identical area, also once normalized; when both
  have peaks of different schemas, both calls fail with InvalidArgument.
\<close>

theorem mergeFootprints_commutes:
  assumes "valid_spans (spans a)" "normalized a \<longrightarrow> is_normal a"
    "valid_spans (spans b)" "normalized b \<longrightarrow> is_normal b"
    "columns_inside (spans a)" "columns_inside (spans b)"
  shows "if peaks_clash a b
         then mergeFootprints a b = Inl InvalidParameterError \<and>
              mergeFootprints b a = Inl InvalidParameterError
         else (\<exists>f g. mergeFootprints a b = Inr f \<and> mergeFootprints b a = Inr g \<and>
                 spans f = spans g \<and> area f = area g \<and>
                 spans (normalize f) = spans (normalize g) \<and>
                 area (normalize f) = area (normalize g))"
proof -
  have a: "sorted_wrt span_before (spans (normalize a))" "valid_spans (spans (normalize a))"
    using normalize_ready_to_merge[OF assms(1,2,5)] by auto
  have b: "sorted_wrt span_before (spans (normalize b))" "valid_spans (spans (normalize b))"
    using normalize_ready_to_merge[OF assms(3,4,6)] by auto
  have c: "peaks_clash (normalize a) (normalize b) = peaks_clash a b"
    by (simp add: peaks_clash_def normalize_keeps_peaks)
  have i: "columns_inside (spans (normalize a))" "columns_inside (spans (normalize b))"
    using normalize_columns_inside assms(5,6) by auto
  show ?thesis
    unfolding mergeFootprints_def using mergeFootprints_core_commutes[OF a b i] unfolding c .
qed

theorem mergeFootprints_commutes_witness:
  "mergeFootprints left_footprint right_footprint = Inr merged_footprint \<and>
   mergeFootprints right_footprint left_footprint = Inr merged_footprint \<and>
   (\<exists>f g. mergeFootprints left_footprint right_footprint = Inr f \<and>
          mergeFootprints right_footprint left_footprint = Inr g \<and>
          spans f = spans g \<and> area f = area g \<and>
          spans (normalize f) = spans (normalize g) \<and> area (normalize f) = area (normalize g))"
proof -
  have va: "valid_spans (spans left_footprint)"
    by (simp add: left_footprint_def addSpan_def valid_spans_def Footprint_default_def)
  have na: "normalized left_footprint \<longrightarrow> is_normal left_footprint"
    by (simp add: left_footprint_def addSpan_def)
  have vb: "valid_spans (spans right_footprint)"
    by (simp add: right_footprint_def valid_spans_def)
  have nb: "normalized right_footprint \<longrightarrow> is_normal right_footprint"
    by (simp add: right_footprint_def is_normal_def row_separated_def tight_bbox_def getWidth_def
        span_key_def less_eq_prod_def)
  have ca: "columns_inside (spans left_footprint)"
    by (simp add: left_footprint_def addSpan_def columns_inside_def Footprint_default_def
        INT_MIN_def INT_MAX_def)
  have cb: "columns_inside (spans right_footprint)"
    by (simp add: right_footprint_def columns_inside_def INT_MIN_def INT_MAX_def)
  have nc: "\<not> peaks_clash left_footprint right_footprint"
    by (simp add: peaks_clash_def left_footprint_def addSpan_def Footprint_default_def emptyPeaks_def)
  have e1: "mergeFootprints left_footprint right_footprint = Inr merged_footprint"
    by code_simp
  have e2: "mergeFootprints right_footprint left_footprint = Inr merged_footprint"
    by code_simp
  from mergeFootprints_commutes[OF va na vb nb ca cb] nc e1 e2 show ?thesis by simp
qed

text \<open>
  Claim C3 as stated fails where a span starts at \<open>INT_MIN\<close>: the test \<open>x1 < xb0 - 1\<close>
  of the outer loop wraps around, so with the span \<open>[10, 12]\<close> as first argument that span
  is added first and the span at \<open>INT_MIN\<close> is then refused by \<open>addSpanInSeries\<close>, while
  the other order returns both spans.
\<close>

theorem mergeFootprints_order_counterexample:
  "mergeFootprints inner_footprint leftmost_footprint = Inl InvalidParameterError \<and>
   mergeFootprints leftmost_footprint inner_footprint =
     Inr \<lparr> spans = [Span 0 (- 2147483648) (- 2147483645), Span 0 10 12], area = 7,
           bbox = Box (- 2147483648) 0 12 0, peaks = emptyPeaks minimalSchema,
           region = EmptyBox, normalized = True \<rparr>"
  by code_simp

section \<open>Dilation then erosion\<close>

lemma coversI: "(a', b') \<in> N \<Longrightarrow> a' \<le> a \<Longrightarrow> b \<le> b' \<Longrightarrow> covers N a b"
  unfolding covers_def by (rule bexI[of _ "(a', b')"]) simp_all

lemma absorb_run_result:
  assumes "absorb_run e ps = (e', ps')" "sorted (map fst ps)" "small e" "\<forall>p \<in> set ps. small (snd p)"
  shows "e \<le> e' \<and> (\<exists>pre. ps = pre @ ps' \<and> (\<forall>p \<in> set pre. snd p \<le> e')) \<and>
         (\<forall>p \<in> set ps'. e' + 1 < fst p) \<and> small e'"
  using assms
proof (induction ps arbitrary: e)
  case Nil
  then show ?case by simp
next
  case (Cons p ps)
  have s: "sorted (map fst ps)" "\<forall>q \<in> set ps. fst p \<le> fst q" using Cons.prems(2) by auto
  have sm: "small (max e (snd p))" "\<forall>q \<in> set ps. small (snd q)"
    using Cons.prems(3,4) by (simp_all add: small_max)
  show ?case
  proof (cases "fst p \<le> int_succ e")
    case True
    then have "absorb_run (max e (snd p)) ps = (e', ps')" using Cons.prems(1) by simp
    from Cons.IH[OF this s(1) sm] obtain pre where
      r: "max e (snd p) \<le> e'" "ps = pre @ ps'" "\<forall>q \<in> set pre. snd q \<le> e'"
         "\<forall>q \<in> set ps'. e' + 1 < fst q" "small e'" by auto
    have "p # ps = (p # pre) @ ps' \<and> (\<forall>q \<in> set (p # pre). snd q \<le> e')" using r by auto
    then show ?thesis using r by (metis max.bounded_iff)
  next
    case False
    then have eq: "e' = e" "ps' = p # ps" using Cons.prems(1) by auto
    have "e + 1 < fst p" using False small_succ[OF Cons.prems(3)] by simp
    then have "\<forall>q \<in> set (p # ps). e + 1 < fst q" using s(2) by auto
    then show ?thesis using eq Cons.prems(3) by auto
  qed
qed

lemma coalesce_correct:
  assumes "sorted (map fst L)" "\<forall>p \<in> set L. fst p \<le> snd p \<and> small (fst p) \<and> small (snd p)"
    "row_ok acc" "\<forall>q \<in> acc. \<forall>p \<in> set L. snd q + 1 < fst p"
  shows "\<exists>N. coalesce atBegin L acc = Inr N \<and> row_ok N \<and> acc \<subseteq> N \<and>
             (\<forall>p \<in> set L. covers N (fst p) (snd p))"
  using assms
proof (induction atBegin L acc rule: coalesce.induct)
  case (1 atBegin newSpans)
  then show ?case by simp
next
  case (2 atBegin span rest newSpans)
  have v: "fst span \<le> snd span" "small (fst span)" "small (snd span)" using "2.prems"(2) by simp_all
  then have c: "fst span \<le> int_succ (snd span)" by (simp add: small_succ)
  have s: "sorted (map fst rest)" "\<forall>q \<in> set rest. fst span \<le> fst q" using "2.prems"(1) by auto
  have sr: "\<forall>p \<in> set rest. small (snd p)" using "2.prems"(2) by simp
  obtain e' rest' where ar: "absorb_run (snd span) rest = (e', rest')" by (metis surj_pair)
  from absorb_run_result[OF ar s(1) v(3) sr] obtain pre where
    r: "snd span \<le> e'" "rest = pre @ rest'" "\<forall>p \<in> set pre. snd p \<le> e'"
       "\<forall>p \<in> set rest'. e' + 1 < fst p" "small e'" by auto
  let ?acc = "insert (fst span, e') newSpans"
  have s': "sorted (map fst rest')" using s(1) r(2) by (simp add: sorted_append)
  have v': "\<forall>p \<in> set rest'. fst p \<le> snd p \<and> small (fst p) \<and> small (snd p)"
    using "2.prems"(2) r(2) by auto
  have gap: "\<forall>q \<in> newSpans. snd q + 1 < fst span" using "2.prems"(4) by simp
  have ok1: "finite ?acc" using "2.prems"(3) by (simp add: row_ok_def)
  have ok2: "\<forall>p \<in> ?acc. fst p \<le> snd p \<and> small (fst p) \<and> small (snd p)"
    using "2.prems"(3) v r(1,5) by (auto simp: row_ok_def)
  have ok3: "\<forall>p \<in> ?acc. \<forall>q \<in> ?acc. p \<noteq> q \<longrightarrow> snd p + 1 < fst q \<or> snd q + 1 < fst p"
  proof (intro ballI impI)
    fix p q assume pq: "p \<in> ?acc" "q \<in> ?acc" "p \<noteq> q"
    show "snd p + 1 < fst q \<or> snd q + 1 < fst p"
    proof (cases "p = (fst span, e')")
      case True
      then have "q \<in> newSpans" using pq by auto
      then show ?thesis using gap True by auto
    next
      case False
      then have p: "p \<in> newSpans" using pq by auto
      show ?thesis
      proof (cases "q = (fst span, e')")
        case True
        then show ?thesis using gap p by auto
      next
        case False
        then have "q \<in> newSpans" using pq by auto
        then show ?thesis using p pq(3) "2.prems"(3) by (simp add: row_ok_def)
      qed
    qed
  qed
  have ok: "row_ok ?acc" unfolding row_ok_def using ok1 ok2 ok3 by blast
  have bf: "\<forall>q \<in> ?acc. \<forall>p \<in> set rest'. snd q + 1 < fst p"
    using "2.prems"(4) r(2,4) by auto
  from "2.IH"[OF c ar[symmetric] s' v' ok bf]
  obtain N where N: "coalesce False rest' ?acc = Inr N" "row_ok N" "?acc \<subseteq> N"
    "\<forall>p \<in> set rest'. covers N (fst p) (snd p)" by auto
  have eq: "coalesce atBegin (span # rest) newSpans = Inr N" using c ar N(1) by simp
  have m: "(fst span, e') \<in> N" using N(3) by auto
  have c1: "covers N (fst span) (snd span)" using coversI[OF m order_refl r(1)] .
  have c2: "\<forall>p \<in> set pre. covers N (fst p) (snd p)"
  proof
    fix p assume p: "p \<in> set pre"
    then have "fst span \<le> fst p" using s(2) r(2) by auto
    then show "covers N (fst p) (snd p)" using coversI[OF m] r(3) p by blast
  qed
  have "\<forall>p \<in> set (span # rest). covers N (fst p) (snd p)"
    using c1 c2 N(4) r(2) by auto
  then show ?case using eq N(2,3) by auto
qed

lemma sorted_pairs_fst: "sorted (L :: (int \<times> int) list) \<Longrightarrow> sorted (map fst L)"
  unfolding sorted_map
  by (erule sorted_wrt_mono_rel[rotated]) (auto simp: less_eq_prod_def)

lemma coalesce_row:
  assumes "finite R" "\<forall>p \<in> R. fst p \<le> snd p \<and> small (fst p) \<and> small (snd p)"
  shows "\<exists>N. coalesce True (sorted_list_of_set R) {} = Inr N \<and> row_ok N \<and>
             (\<forall>p \<in> R. covers N (fst p) (snd p))"
proof -
  have 1: "sorted (map fst (sorted_list_of_set R))" by (rule sorted_pairs_fst) simp
  have 2: "\<forall>p \<in> set (sorted_list_of_set R). fst p \<le> snd p \<and> small (fst p) \<and> small (snd p)"
    using assms by simp
  have 3: "row_ok {}" by (simp add: row_ok_def)
  from coalesce_correct[OF 1 2 3, of True] show ?thesis using assms(1) by auto
qed

lemma covers_trans:
  assumes "covers R a b" "\<forall>p \<in> R. covers N (fst p) (snd p)"
  shows "covers N a b"
proof -
  from assms(1) obtain p where p: "p \<in> R" "fst p \<le> a" "b \<le> snd p" by (auto simp: covers_def)
  from assms(2) p(1) obtain q where q: "q \<in> N" "fst q \<le> fst p" "snd p \<le> snd q"
    by (auto simp: covers_def)
  show ?thesis unfolding covers_def using p q by (intro bexI[of _ q]) auto
qed

lemma grow_step_correct:
  assumes "rows_ok rows" "getX0 s + getX0 el \<le> getX1 s + getX1 el" "sums_small s el"
  shows "\<exists>rows'. grow_step s el rows = Inr rows' \<and> rows_ok rows' \<and>
           covers (row_of rows' (getY s + getY el)) (getX0 s + getX0 el) (getX1 s + getX1 el) \<and>
           (\<forall>y a b. covers (row_of rows y) a b \<longrightarrow> covers (row_of rows' y) a b)"
proof -
  let ?y = "getY s + getY el" and ?p = "(getX0 s + getX0 el, getX1 s + getX1 el)"
  let ?R = "insert ?p (row_of rows ?y)"
  have sm: "small (getX0 s + getX0 el)" "small (getX1 s + getX1 el)" "small ?y"
    using assms(3) by (simp_all add: sums_small_def)
  have w: "int_wrap (getX0 s + getX0 el) = getX0 s + getX0 el"
    "int_wrap (getX1 s + getX1 el) = getX1 s + getX1 el" "int_wrap ?y = ?y"
    using sm by (simp_all add: int_wrap_small)
  have ok: "row_ok (row_of rows ?y)" using assms(1) by (simp add: rows_ok_def)
  have f: "finite ?R" and v: "\<forall>p \<in> ?R. fst p \<le> snd p \<and> small (fst p) \<and> small (snd p)"
    using ok assms(2) sm by (auto simp: row_ok_def)
  from coalesce_row[OF f v] obtain N where
    N: "coalesce True (sorted_list_of_set ?R) {} = Inr N" "row_ok N"
       "\<forall>p \<in> ?R. covers N (fst p) (snd p)" by auto
  let ?rows' = "Mapping.update ?y N rows"
  have eq: "grow_step s el rows = Inr ?rows'"
    using N(1) unfolding grow_step_def Let_def w by (simp add: row_of_def)
  have r: "row_of ?rows' y = (if y = ?y then N else row_of rows y)" for y
    by (simp add: row_of_def lookup_default_update')
  have ok': "rows_ok ?rows'"
    using assms(1) N(2) sm(3) by (auto simp add: rows_ok_def r)
  have c1: "covers (row_of ?rows' ?y) (getX0 s + getX0 el) (getX1 s + getX1 el)"
    using N(3) by (simp add: r)
  have c2: "\<forall>y a b. covers (row_of rows y) a b \<longrightarrow> covers (row_of ?rows' y) a b"
  proof (intro allI impI)
    fix y a b assume c: "covers (row_of rows y) a b"
    show "covers (row_of ?rows' y) a b"
    proof (cases "y = ?y")
      case True
      have "\<forall>p \<in> row_of rows ?y. covers N (fst p) (snd p)" using N(3) by simp
      from covers_trans[OF _ this] c True show ?thesis by (simp add: r)
    next
      case False
      then show ?thesis using c by (simp add: r)
    qed
  qed
  show ?thesis using eq ok' c1 c2 by blast
qed

lemma fold_elements:
  assumes "getX0 s \<le> getX1 s"
  shows "rows_ok rows \<Longrightarrow> valid_spans els \<Longrightarrow> \<forall>el \<in> set els. sums_small s el \<Longrightarrow>
         \<exists>rows'. fold_err (grow_step s) els rows = Inr rows' \<and> rows_ok rows' \<and>
           (\<forall>el \<in> set els. dilated rows' s el) \<and>
           (\<forall>y a b. covers (row_of rows y) a b \<longrightarrow> covers (row_of rows' y) a b)"
proof (induction els arbitrary: rows)
  case Nil
  then show ?case by simp
next
  case (Cons el els)
  have v: "getX0 el \<le> getX1 el" "valid_spans els" using Cons.prems(2) by (auto simp: valid_spans_def)
  have "getX0 s + getX0 el \<le> getX1 s + getX1 el" using assms v(1) by simp
  from grow_step_correct[OF Cons.prems(1) this] Cons.prems(3) obtain rows1 where
    1: "grow_step s el rows = Inr rows1" "rows_ok rows1" "dilated rows1 s el"
       "\<forall>y a b. covers (row_of rows y) a b \<longrightarrow> covers (row_of rows1 y) a b"
    by (auto simp: dilated_def)
  have "\<forall>e \<in> set els. sums_small s e" using Cons.prems(3) by simp
  from Cons.IH[OF 1(2) v(2) this] obtain rows' where
    2: "fold_err (grow_step s) els rows1 = Inr rows'" "rows_ok rows'"
       "\<forall>e \<in> set els. dilated rows' s e"
       "\<forall>y a b. covers (row_of rows1 y) a b \<longrightarrow> covers (row_of rows' y) a b" by auto
  have "dilated rows' s el" using 1(3) 2(4) by (simp add: dilated_def)
  then show ?case using 1 2 by auto
qed

lemma fold_spans:
  assumes "valid_spans els"
  shows "rows_ok rows \<Longrightarrow> valid_spans ss \<Longrightarrow> \<forall>s \<in> set ss. \<forall>el \<in> set els. sums_small s el \<Longrightarrow>
         \<exists>rows'. fold_err (\<lambda>s. fold_err (grow_step s) els) ss rows = Inr rows' \<and> rows_ok rows' \<and>
           (\<forall>s \<in> set ss. \<forall>el \<in> set els. dilated rows' s el) \<and>
           (\<forall>y a b. covers (row_of rows y) a b \<longrightarrow> covers (row_of rows' y) a b)"
proof (induction ss arbitrary: rows)
  case Nil
  then show ?case by simp
next
  case (Cons s ss)
  have v: "getX0 s \<le> getX1 s" "valid_spans ss" using Cons.prems(2) by (auto simp: valid_spans_def)
  have sm: "\<forall>el \<in> set els. sums_small s el" "\<forall>t \<in> set ss. \<forall>el \<in> set els. sums_small t el"
    using Cons.prems(3) by simp_all
  from fold_elements[OF v(1) Cons.prems(1) assms sm(1)] obtain rows1 where
    1: "fold_err (grow_step s) els rows = Inr rows1" "rows_ok rows1"
       "\<forall>el \<in> set els. dilated rows1 s el"
       "\<forall>y a b. covers (row_of rows y) a b \<longrightarrow> covers (row_of rows1 y) a b" by auto
  from Cons.IH[OF 1(2) v(2) sm(2)] obtain rows' where
    2: "fold_err (\<lambda>s. fold_err (grow_step s) els) ss rows1 = Inr rows'" "rows_ok rows'"
       "\<forall>t \<in> set ss. \<forall>el \<in> set els. dilated rows' t el"
       "\<forall>y a b. covers (row_of rows1 y) a b \<longrightarrow> covers (row_of rows' y) a b" by auto
  have "\<forall>el \<in> set els. dilated rows' s el" using 1(3) 2(4) by (simp add: dilated_def)
  then show ?case using 1 2 by auto
qed

lemma rows_ok_empty: "rows_ok Mapping.empty"
  by (simp add: rows_ok_def row_of_def lookup_default_empty row_ok_def)

lemma rows_spans_eq:
  "rows_spans rows = concat (map (\<lambda>y. row_list y (row_of rows y)) (Mapping.ordered_keys rows))"
  by (simp add: rows_spans_def row_list_def row_of_def)

lemma row_list_set: "finite R \<Longrightarrow> set (row_list y R) = (\<lambda>p. Span y (fst p) (snd p)) ` R"
  by (simp add: row_list_def)

lemma row_list_sorted:
  assumes "row_ok R"
  shows "sorted_wrt span_before (row_list y R)"
proof -
  have f: "finite R" using assms by (simp add: row_ok_def)
  have "sorted_wrt (<) (sorted_list_of_set R)" by simp
  then have "sorted_wrt (\<lambda>p q. span_before (Span y (fst p) (snd p)) (Span y (fst q) (snd q)))
               (sorted_list_of_set R)"
  proof (rule sorted_wrt_mono_rel[rotated])
    fix p q assume "p \<in> set (sorted_list_of_set R)" "q \<in> set (sorted_list_of_set R)" "p < q"
    then have pq: "p \<in> R" "q \<in> R" "p \<noteq> q" "fst p \<le> fst q" using f by (auto simp: less_prod_def)
    then have "snd p + 1 < fst q \<or> snd q + 1 < fst p" using assms by (simp add: row_ok_def)
    moreover have "fst q \<le> snd q" using pq(2) assms by (simp add: row_ok_def)
    ultimately have "snd p + 1 < fst q" using pq(4) by linarith
    then show "span_before (Span y (fst p) (snd p)) (Span y (fst q) (snd q))"
      by (simp add: span_before_def)
  qed
  then show ?thesis by (simp add: row_list_def sorted_wrt_map)
qed

lemma sorted_wrt_concat_rows:
  assumes "\<forall>y \<in> set ys. sorted_wrt P (g y)"
    "\<forall>y \<in> set ys. \<forall>y' \<in> set ys. y < y' \<longrightarrow> (\<forall>a \<in> set (g y). \<forall>b \<in> set (g y'). P a b)"
  shows "sorted_wrt (<) (ys :: int list) \<Longrightarrow> sorted_wrt P (concat (map g ys))"
  using assms
proof (induction ys)
  case Nil
  then show ?case by simp
next
  case (Cons y ys)
  have "sorted_wrt P (concat (map g ys))" using Cons by auto
  moreover have "sorted_wrt P (g y)" using Cons.prems(2) by simp
  moreover have "\<forall>a \<in> set (g y). \<forall>b \<in> set (concat (map g ys)). P a b"
    using Cons.prems(1,3) by auto
  ultimately show ?case by (simp add: sorted_wrt_append)
qed

lemma rows_spans_correct:
  assumes "rows_ok rows"
  shows "sorted_wrt span_before (rows_spans rows) \<and> valid_spans (rows_spans rows) \<and>
         (\<forall>y p. p \<in> row_of rows y \<longrightarrow> Span y (fst p) (snd p) \<in> set (rows_spans rows)) \<and>
         (\<forall>t \<in> set (rows_spans rows). span_small t)"
proof -
  have fk: "finite (Mapping.keys rows)" and ok: "\<And>y. row_ok (row_of rows y)"
    and nk: "\<And>y. y \<notin> Mapping.keys rows \<Longrightarrow> row_of rows y = {}"
    using assms by (auto simp: rows_ok_def)
  have fr: "\<And>y. finite (row_of rows y)" using ok by (simp add: row_ok_def)
  have ks: "sorted_wrt (<) (Mapping.ordered_keys rows)" "set (Mapping.ordered_keys rows) = Mapping.keys rows"
    using fk by (simp_all add: ordered_keys_def)
  have ys: "\<And>y a. a \<in> set (row_list y (row_of rows y)) \<Longrightarrow> getY a = y"
    using fr by (auto simp: row_list_set)
  have 1: "sorted_wrt span_before (rows_spans rows)"
    unfolding rows_spans_eq
  proof (rule sorted_wrt_concat_rows[OF _ _ ks(1)])
    show "\<forall>y \<in> set (Mapping.ordered_keys rows). sorted_wrt span_before (row_list y (row_of rows y))"
      using row_list_sorted[OF ok] by simp
    show "\<forall>y \<in> set (Mapping.ordered_keys rows). \<forall>y' \<in> set (Mapping.ordered_keys rows). y < y' \<longrightarrow>
            (\<forall>a \<in> set (row_list y (row_of rows y)). \<forall>b \<in> set (row_list y' (row_of rows y')). span_before a b)"
      using ys by (fastforce simp: span_before_def)
  qed
  have 2: "valid_spans (rows_spans rows)"
    unfolding rows_spans_eq valid_spans_def using fr ok by (auto simp: row_list_set row_ok_def)
  have 3: "\<forall>y p. p \<in> row_of rows y \<longrightarrow> Span y (fst p) (snd p) \<in> set (rows_spans rows)"
  proof (intro allI impI)
    fix y p assume p: "p \<in> row_of rows y"
    then have "y \<in> Mapping.keys rows" using nk by auto
    then show "Span y (fst p) (snd p) \<in> set (rows_spans rows)"
      unfolding rows_spans_eq using ks(2) fr p by (auto simp: row_list_set)
  qed
  have sk: "\<And>y. y \<in> Mapping.keys rows \<Longrightarrow> small y" using assms by (simp add: rows_ok_def)
  have 4: "\<forall>t \<in> set (rows_spans rows). span_small t"
    unfolding rows_spans_eq using fr ok ks(2) sk
    by (auto simp: row_list_set row_ok_def span_small_def)
  show ?thesis using 1 2 3 4 by blast
qed

lemma add_all_spans:
  "sorted_wrt span_before ss \<Longrightarrow> valid_spans ss \<Longrightarrow> ready foot ss \<Longrightarrow>
   \<exists>f. add_all foot ss = Inr f \<and> spans f = spans foot @ ss"
proof (induction ss arbitrary: foot)
  case Nil
  then show ?case by simp
next
  case (Cons s ss)
  have v: "getX0 s \<le> getX1 s" "valid_spans ss" using Cons.prems(2) by (auto simp: valid_spans_def)
  have "spans foot = [] \<or> span_before (last (spans foot)) (Span (getY s) (getX0 s) (getX1 s))"
    using Cons.prems(3) by (auto simp: ready_def)
  from addSpanInSeries_append[OF this v(1)]
  obtain foot' where f: "addSpanInSeries foot (getY s) (getX0 s) (getX1 s) = Inr foot'"
    "spans foot' = spans foot @ [s]" by auto
  have "ready foot' ss" using f(2) Cons.prems(1) by (simp add: ready_def)
  from Cons.IH[OF _ v(2) this] Cons.prems(1) obtain g where
    "add_all foot' ss = Inr g" "spans g = spans foot' @ ss" by auto
  then show ?case using f by simp
qed

lemma growFootprintImpl_correct:
  assumes "valid_spans (spans f)" "valid_spans (widths E)"
    "\<forall>s \<in> set (spans f). \<forall>el \<in> set (widths E). sums_small s el"
  shows "\<exists>g. growFootprintImpl f E = Inr g \<and> sorted_wrt span_before (spans g) \<and>
             valid_spans (spans g) \<and> (\<forall>t \<in> set (spans g). span_small t) \<and>
             (\<forall>s \<in> set (spans f). \<forall>el \<in> set (widths E). grown_covers (spans g) s el)"
proof -
  let ?g0 = "\<lparr> spans = [], area = 0, bbox = EmptyBox, peaks = emptyPeaks minimalSchema,
                 region = region f, normalized = True \<rparr>"
  have g0: "Footprint_nspan 0 (region f) = Inr ?g0" by (simp add: Footprint_nspan_def)
  from fold_spans[OF assms(2) rows_ok_empty assms(1,3)] obtain rows where
    r: "fold_err (\<lambda>s. fold_err (grow_step s) (widths E)) (spans f) Mapping.empty = Inr rows"
       "rows_ok rows" "\<forall>s \<in> set (spans f). \<forall>el \<in> set (widths E). dilated rows s el" by auto
  from rows_spans_correct[OF r(2)] have
    rs: "sorted_wrt span_before (rows_spans rows)" "valid_spans (rows_spans rows)"
        "\<And>y p. p \<in> row_of rows y \<Longrightarrow> Span y (fst p) (snd p) \<in> set (rows_spans rows)"
        "\<forall>t \<in> set (rows_spans rows). span_small t" by auto
  have "ready ?g0 (rows_spans rows)" by (simp add: ready_def)
  from add_all_spans[OF rs(1,2) this] obtain g' where
    g': "add_all ?g0 (rows_spans rows) = Inr g'" "spans g' = rows_spans rows" by auto
  have eq: "growFootprintImpl f E = Inr (g' \<lparr> peaks := peaks f \<rparr>)"
    using g0 r(1) g'(1) by (simp add: growFootprintImpl_def)
  have cov: "\<forall>s \<in> set (spans f). \<forall>el \<in> set (widths E). grown_covers (rows_spans rows) s el"
  proof (intro ballI)
    fix s el assume "s \<in> set (spans f)" "el \<in> set (widths E)"
    then have "dilated rows s el" using r(3) by blast
    then obtain p where p: "p \<in> row_of rows (getY s + getY el)" "fst p \<le> getX0 s + getX0 el"
      "getX1 s + getX1 el \<le> snd p" by (auto simp: dilated_def covers_def)
    from rs(3)[OF p(1)] show "grown_covers (rows_spans rows) s el"
      unfolding grown_covers_def using p(2,3)
      by (intro bexI[of _ "Span (getY s + getY el) (fst p) (snd p)"]) auto
  qed
  show ?thesis using eq rs(1,2,4) g'(2) cov by auto
qed

lemma indexed_rows:
  "set (zip [0..int (length ws) - 1] ws) = {(int k, ws ! k) | k. k < length ws}"
proof -
  have len: "length [0..int (length ws) - 1] = length ws" by simp
  have nth: "k < length ws \<Longrightarrow> [0..int (length ws) - 1] ! k = int k" for k
    by (simp add: nth_upto)
  show ?thesis
  proof (rule set_eqI, clarify)
    fix a b
    have "(a, b) \<in> set (zip [0..int (length ws) - 1] ws) \<longleftrightarrow>
          (\<exists>i. [0..int (length ws) - 1] ! i = a \<and> ws ! i = b \<and> i < length ws)"
      unfolding in_set_zip len by auto
    also have "\<dots> \<longleftrightarrow> (\<exists>i. int i = a \<and> ws ! i = b \<and> i < length ws)"
      by (metis nth)
    finally show "(a, b) \<in> set (zip [0..int (length ws) - 1] ws) \<longleftrightarrow>
       (a, b) \<in> {(int k, ws ! k) | k. k < length ws}" by auto
  qed
qed

lemma span_runs_set:
  assumes "span_small s" "spans_small (widths E)"
  shows "set (span_runs E s) =
         {run_of (int k) (widths E ! k) s | k. k < length (widths E) \<and> fits (widths E ! k) s}"
proof -
  have w: "int_wrap (getX1 it - getX0 it) = getX1 it - getX0 it"
          "int_wrap (getX1 s - getX0 s) = getX1 s - getX0 s"
          "int_wrap (getY s - getY it) = getY s - getY it"
          "int_wrap (getX0 s - getX0 it) = getX0 s - getX0 it"
          "int_wrap (getX1 s - getX1 it) = getX1 s - getX1 it"
    if "it \<in> set (widths E)" for it
    using that assms by (simp_all add: int_wrap_diff span_small_def spans_small_def)
  have eq: "span_runs E s =
     concat (map (\<lambda>(m, it).
                    if getX1 it - getX0 it \<le> getX1 s - getX0 s
                    then [PrimaryRun m (getY s - getY it) (getX0 s - getX0 it) (getX1 s - getX1 it)]
                    else [])
                 (zip [0..int (length (widths E)) - 1] (widths E)))"
    unfolding span_runs_def
    by (rule arg_cong[where f = concat], rule map_cong[OF refl])
       (auto simp: w dest: set_zip_rightD)
  show ?thesis
    unfolding eq set_concat set_map indexed_rows by (auto simp: run_of_def fits_def)
qed

lemma all_runs_set:
  assumes "spans_small gs" "spans_small (widths E)"
  shows "set (all_runs E gs) =
   {run_of (int k) (widths E ! k) t | k t. t \<in> set gs \<and> k < length (widths E) \<and> fits (widths E ! k) t}"
proof (rule set_eqI)
  fix r
  have sm: "\<And>t. t \<in> set gs \<Longrightarrow> span_small t" using assms(1) by (simp add: spans_small_def)
  have "r \<in> set (all_runs E gs) \<longleftrightarrow> (\<exists>t \<in> set gs. r \<in> set (span_runs E t))"
    by (auto simp: all_runs_def)
  also have "\<dots> \<longleftrightarrow> (\<exists>t \<in> set gs. \<exists>k. r = run_of (int k) (widths E ! k) t \<and>
                 k < length (widths E) \<and> fits (widths E ! k) t)"
    using span_runs_set[OF sm assms(2)] by blast
  finally show "r \<in> set (all_runs E gs) \<longleftrightarrow>
     r \<in> {run_of (int k) (widths E ! k) t | k t. t \<in> set gs \<and> k < length (widths E) \<and> fits (widths E ! k) t}"
    by blast
qed

text \<open>No run lies on the row \<open>INT_MAX\<close>.\<close>

lemma runs_below_INT_MAX:
  assumes "spans_small gs" "spans_small (widths E)" "r \<in> set (all_runs E gs)"
  shows "pr_y r < INT_MAX"
proof -
  from assms(3) obtain k t where r: "r = run_of (int k) (widths E ! k) t" "t \<in> set gs"
    "k < length (widths E)" unfolding all_runs_set[OF assms(1,2)] by blast
  have "small (getY t)" using assms(1) r(2) by (simp add: spans_small_def span_small_def)
  moreover have "small (getY (widths E ! k))"
    using assms(2) r(3) by (simp add: spans_small_def span_small_def)
  ultimately show ?thesis using r(1) by (simp add: run_of_def small_def INT_MAX_def)
qed

lemma sorted_wrt_distinct_pair:
  "sorted_wrt P xs \<Longrightarrow> a \<in> set xs \<Longrightarrow> b \<in> set xs \<Longrightarrow> a \<noteq> b \<Longrightarrow> P a b \<or> P b a"
  by (induction xs) auto

text \<open>Runs of one row and one element row: valid, and equal or apart.\<close>

lemma runs_apart:
  assumes "sorted_wrt span_before gs" "valid_spans (widths E)"
    "r \<in> set (all_runs E gs)" "r' \<in> set (all_runs E gs)"
    "pr_y r = pr_y r'" "pr_m r = pr_m r'" "spans_small gs" "spans_small (widths E)"
  shows "pr_xmin r \<le> pr_xmax r \<and> (r = r' \<or> pr_xmax r < pr_xmin r' \<or> pr_xmax r' < pr_xmin r)"
proof -
  from assms(3) obtain k t where r: "r = run_of (int k) (widths E ! k) t" "t \<in> set gs"
    "k < length (widths E)" "fits (widths E ! k) t" unfolding all_runs_set[OF assms(7,8)] by blast
  from assms(4) obtain k' t' where r': "r' = run_of (int k') (widths E ! k') t'" "t' \<in> set gs"
    "k' < length (widths E)" "fits (widths E ! k') t'" unfolding all_runs_set[OF assms(7,8)] by blast
  have k: "k' = k" using assms(6) r(1) r'(1) by (simp add: run_of_def)
  let ?el = "widths E ! k"
  have el: "getX0 ?el \<le> getX1 ?el" using assms(2) r(3) by (simp add: valid_spans_def)
  have y: "getY t = getY t'" using assms(5) r(1) r'(1) k by (simp add: run_of_def)
  have v: "pr_xmin r \<le> pr_xmax r" using r(1,4) by (simp add: run_of_def fits_def)
  show ?thesis
  proof (cases "t = t'")
    case True
    then show ?thesis using v r(1) r'(1) k by simp
  next
    case False
    from sorted_wrt_distinct_pair[OF assms(1) r(2) r'(2) False]
    have "getX1 t + 1 < getX0 t' \<or> getX1 t' + 1 < getX0 t" using y by (auto simp: span_before_def)
    then have "pr_xmax r < pr_xmin r' \<or> pr_xmax r' < pr_xmin r"
      using r(1) r'(1) k el by (auto simp: run_of_def)
    then show ?thesis using v by blast
  qed
qed

text \<open>The run that a covering span of the dilation gives for an element row.\<close>

lemma covering_run:
  assumes "grown_covers gs s (widths E ! k)" "k < length (widths E)" "getX0 s \<le> getX1 s"
    "spans_small gs" "spans_small (widths E)"
  shows "\<exists>r \<in> set (all_runs E gs). pr_m r = int k \<and> pr_y r = getY s \<and>
           pr_xmin r \<le> getX0 s \<and> getX1 s \<le> pr_xmax r"
proof -
  let ?el = "widths E ! k"
  from assms(1) obtain t where t: "t \<in> set gs" "getY t = getY s + getY ?el"
    "getX0 t \<le> getX0 s + getX0 ?el" "getX1 s + getX1 ?el \<le> getX1 t"
    by (auto simp: grown_covers_def)
  have f: "fits ?el t" using t(3,4) assms(3) by (simp add: fits_def)
  have m: "run_of (int k) ?el t \<in> set (all_runs E gs)"
    unfolding all_runs_set[OF assms(4,5)] using t(1) assms(2) f by blast
  show ?thesis using t(2,3,4) by (intro bexI[OF _ m]) (simp add: run_of_def)
qed

lemma sort_runs_props:
  "set (sort_runs rs) = set rs \<and> sorted (map run_key (sort_runs rs))"
  by (simp add: sort_runs_def run_key_def[abs_def])

lemma m_range_set: "set (m_range P y m) = {r \<in> set P. pr_y r = y \<and> pr_m r = m}"
  by (auto simp: m_range_def)

lemma m_range_sorted:
  assumes "sorted (map run_key P)"
  shows "sorted (map pr_xmin (m_range P y m))"
proof -
  have "sorted (map run_key (m_range P y m))"
    unfolding m_range_def using assms by (simp add: sorted_filter)
  then have "sorted_wrt (\<lambda>r r'. run_key r \<le> run_key r') (m_range P y m)" by (simp add: sorted_map)
  then have "sorted_wrt (\<lambda>r r'. pr_xmin r \<le> pr_xmin r') (m_range P y m)"
  proof (rule sorted_wrt_mono_rel[rotated])
    fix r r' assume "r \<in> set (m_range P y m)" "r' \<in> set (m_range P y m)" "run_key r \<le> run_key r'"
    then show "pr_xmin r \<le> pr_xmin r'"
      by (auto simp: m_range_set run_key_def less_eq_prod_def)
  qed
  then show ?thesis by (simp add: sorted_map)
qed

lemma consolidate_keeps:
  assumes "sorted (map pr_xmin (r0 # rest))"
    "\<forall>r \<in> set (r0 # rest). pr_xmin r \<le> pr_xmax r"
    "\<forall>r \<in> set (r0 # rest). \<forall>r' \<in> set (r0 # rest). same_or_apart r r'"
  shows "\<forall>r \<in> set (r0 # rest).
           PrimaryRun m y (pr_xmin r) (pr_xmax r) \<in> set (consolidate m y (pr_xmin r0) (pr_xmax r0) rest)"
  using assms
proof (induction rest arbitrary: r0)
  case Nil
  then show ?case by simp
next
  case (Cons run rest)
  have le: "pr_xmin r0 \<le> pr_xmin run" using Cons.prems(1) by simp
  have v: "pr_xmin r0 \<le> pr_xmax r0" "pr_xmin run \<le> pr_xmax run" using Cons.prems(2) by auto
  have sa: "same_or_apart r0 run" using Cons.prems(3) by simp
  show ?case
  proof (cases "pr_xmin run > pr_xmax r0")
    case True
    have 1: "sorted (map pr_xmin (run # rest))" using Cons.prems(1) by simp
    have 2: "\<forall>r \<in> set (run # rest). pr_xmin r \<le> pr_xmax r" using Cons.prems(2) by simp
    have 3: "\<forall>r \<in> set (run # rest). \<forall>r' \<in> set (run # rest). same_or_apart r r'"
      using Cons.prems(3) by simp
    from Cons.IH[OF 1 2 3] show ?thesis using True by simp
  next
    case False
    then have same: "pr_xmin run = pr_xmin r0" "pr_xmax run = pr_xmax r0"
      using sa le v by (auto simp: same_or_apart_def)
    have 1: "sorted (map pr_xmin (r0 # rest))" using Cons.prems(1) by simp
    have 2: "\<forall>r \<in> set (r0 # rest). pr_xmin r \<le> pr_xmax r" using Cons.prems(2) by simp
    have 3: "\<forall>r \<in> set (r0 # rest). \<forall>r' \<in> set (r0 # rest). same_or_apart r r'"
      using Cons.prems(3) by simp
    from Cons.IH[OF 1 2 3] show ?thesis using False same by simp
  qed
qed

lemma consolidate_row: "\<forall>r \<in> set (consolidate m y sx ex rest). pr_y r = y"
  by (induction rest arbitrary: sx ex) auto

lemma holdsI: "r \<in> set L \<Longrightarrow> pr_xmin r \<le> a \<Longrightarrow> b \<le> pr_xmax r \<Longrightarrow> holds L a b"
  unfolding holds_def by blast

lemma intersect_holds:
  assumes "holds good a b" "holds cand a b" "a \<le> b"
  shows "holds (intersect_runs m y good cand) a b"
proof -
  from assms(1) obtain g where g: "g \<in> set good" "pr_xmin g \<le> a" "b \<le> pr_xmax g"
    by (auto simp: holds_def)
  from assms(2) obtain c where c: "c \<in> set cand" "pr_xmin c \<le> a" "b \<le> pr_xmax c"
    by (auto simp: holds_def)
  let ?r = "PrimaryRun m y (max (pr_xmin g) (pr_xmin c)) (min (pr_xmax g) (pr_xmax c))"
  have ge: "min (pr_xmax g) (pr_xmax c) \<ge> max (pr_xmin g) (pr_xmin c)"
    using g c assms(3) by auto
  have inner: "?r \<in> set (concat (map (\<lambda>cand.
         (let start = max (pr_xmin g) (pr_xmin cand); end = min (pr_xmax g) (pr_xmax cand)
          in if end \<ge> start then [PrimaryRun m y start end] else [])) cand))"
    unfolding set_concat set_map using c(1) ge
    by (intro UN_I[of "(let start = max (pr_xmin g) (pr_xmin c); end = min (pr_xmax g) (pr_xmax c)
          in if end \<ge> start then [PrimaryRun m y start end] else [])"]) (simp_all add: Let_def)
  have "?r \<in> set (intersect_runs m y good cand)"
    unfolding intersect_runs_def set_concat set_map using g(1) inner
    by blast
  then show ?thesis using g c by (intro holdsI[of ?r]) auto
qed

lemma intersect_row: "\<forall>r \<in> set (intersect_runs m y good cand). pr_y r = y"
  by (auto simp: intersect_runs_def Let_def split: if_splits)

lemma good_step_row: "\<forall>r \<in> set (good_step yRuns y m good). pr_y r = y"
  using consolidate_row intersect_row by (auto simp: good_step_def Let_def)

lemma candidates_hold:
  assumes "run_facts P n y a b" "k < n"
  shows "m_range P y (int k) \<noteq> [] \<and>
         holds (consolidate (int k) y (pr_xmin (hd (m_range P y (int k))))
                   (pr_xmax (hd (m_range P y (int k)))) (tl (m_range P y (int k)))) a b"
proof -
  let ?L = "m_range P y (int k)"
  from assms obtain r where r: "r \<in> set P" "pr_m r = int k" "pr_y r = y" "pr_xmin r \<le> a" "b \<le> pr_xmax r"
    unfolding run_facts_def by blast
  have rin: "r \<in> set ?L" using r by (simp add: m_range_set)
  then have ne: "?L \<noteq> []" by auto
  then have L: "?L = hd ?L # tl ?L" by simp
  have s: "sorted (map pr_xmin (hd ?L # tl ?L))"
    using m_range_sorted[of P y "int k"] assms(1) L by (simp add: run_facts_def)
  have v: "\<forall>r \<in> set (hd ?L # tl ?L). pr_xmin r \<le> pr_xmax r"
    and sa: "\<forall>r \<in> set (hd ?L # tl ?L). \<forall>r' \<in> set (hd ?L # tl ?L). same_or_apart r r'"
  proof -
    have sub: "set (hd ?L # tl ?L) = {r \<in> set P. pr_y r = y \<and> pr_m r = int k}"
      using L m_range_set[of P y "int k"] by simp
    have f: "\<And>r r'. r \<in> set P \<Longrightarrow> r' \<in> set P \<Longrightarrow> pr_y r = pr_y r' \<Longrightarrow> pr_m r = pr_m r' \<Longrightarrow>
               pr_xmin r \<le> pr_xmax r \<and> same_or_apart r r'"
      using assms(1) unfolding run_facts_def by blast
    show "\<forall>r \<in> set (hd ?L # tl ?L). pr_xmin r \<le> pr_xmax r"
      unfolding sub using f[OF _ _ refl refl] by blast
    show "\<forall>r \<in> set (hd ?L # tl ?L). \<forall>r' \<in> set (hd ?L # tl ?L). same_or_apart r r'"
      unfolding sub using f by (metis (mono_tags, lifting) mem_Collect_eq)
  qed
  from consolidate_keeps[OF s v sa, of "int k" y] rin L
  have "PrimaryRun (int k) y (pr_xmin r) (pr_xmax r) \<in>
          set (consolidate (int k) y (pr_xmin (hd ?L)) (pr_xmax (hd ?L)) (tl ?L))" by metis
  then have "holds (consolidate (int k) y (pr_xmin (hd ?L)) (pr_xmax (hd ?L)) (tl ?L)) a b"
    using r(4,5) by (intro holdsI[of "PrimaryRun (int k) y (pr_xmin r) (pr_xmax r)"]) auto
  then show ?thesis using ne by blast
qed

lemma good_step_holds:
  assumes "run_facts P n y a b" "k < n" "a \<le> b" "k = 0 \<or> holds good a b"
  shows "holds (good_step (filter (\<lambda>r. pr_y r = y) P) y (int k) good) a b"
proof -
  have m: "filter (\<lambda>r. pr_m r = int k) (filter (\<lambda>r. pr_y r = y) P) = m_range P y (int k)"
    by (simp add: m_range_def)
  from candidates_hold[OF assms(1,2)] have
    c: "m_range P y (int k) \<noteq> []"
       "holds (consolidate (int k) y (pr_xmin (hd (m_range P y (int k))))
                   (pr_xmax (hd (m_range P y (int k)))) (tl (m_range P y (int k)))) a b" by auto
  show ?thesis
  proof (cases "k = 0")
    case True
    show ?thesis unfolding good_step_def Let_def m using c True by simp
  next
    case False
    then have "holds good a b" using assms(4) by simp
    from intersect_holds[OF this c(2) assms(3)] show ?thesis
      unfolding good_step_def Let_def m using False c(1) by simp
  qed
qed

lemma good_fold_holds:
  assumes "run_facts P n y a b" "a \<le> b"
  shows "j < n \<Longrightarrow> holds (fold (good_step (filter (\<lambda>r. pr_y r = y) P) y) [0..int j] []) a b"
proof (induction j)
  case 0
  have "[0..int 0] = [0]" by (simp add: upto.simps)
  then show ?case using good_step_holds[OF assms(1) 0 assms(2), of "[]"] by simp
next
  case (Suc j)
  have up: "[0..int (Suc j)] = [0..int j] @ [int (Suc j)]"
    using upto_rec2[of 0 "int (Suc j)"] by simp
  have "holds (fold (good_step (filter (\<lambda>r. pr_y r = y) P) y) [0..int j] []) a b"
    using Suc by simp
  from good_step_holds[OF assms(1) Suc.prems assms(2) disjI2, OF this]
  show ?case unfolding up by simp
qed

lemma good_fold_row:
  "0 \<le> j \<Longrightarrow> \<forall>r \<in> set (fold (good_step yRuns y) [0..j] []). pr_y r = y"
proof -
  assume "0 \<le> j"
  then have "[0..j] = [0..j - 1] @ [j]" by (simp add: upto_rec2)
  then show ?thesis using good_step_row by simp
qed

lemma enough_runs:
  assumes "\<forall>k < n. \<exists>r \<in> set L. f r = int k"
  shows "n \<le> length L"
proof -
  have "int ` {..<n} \<subseteq> f ` set L" using assms by force
  then have "card (int ` {..<n}) \<le> card (f ` set L)" by (intro card_mono) auto
  also have "\<dots> \<le> card (set L)" by (rule card_image_le) simp
  also have "\<dots> \<le> length L" by (rule card_length)
  finally show ?thesis by (simp add: card_image)
qed

lemma fold_addSpan_runs:
  "spans (fold (\<lambda>run f. addSpan f (pr_y run) (pr_xmin run) (pr_xmax run)) runs f0) =
   spans f0 @ map span_of_run runs"
proof (induction runs arbitrary: f0)
  case Nil
  then show ?case by simp
next
  case (Cons r runs)
  have "spans (addSpan f0 (pr_y r) (pr_xmin r) (pr_xmax r)) = spans f0 @ [span_of_run r]"
    by (simp add: addSpan_def span_of_run_def min_def max_def Let_def)
  then show ?case using Cons[of "addSpan f0 (pr_y r) (pr_xmin r) (pr_xmax r)"] by simp
qed

lemma shrink_row_mono: "set (spans shrunk) \<subseteq> set (spans (shrink_row E P y shrunk))"
  unfolding shrink_row_def Let_def by (simp only: fold_addSpan_runs split: if_split) simp

lemma fold_shrink_mono: "set (spans shrunk) \<subseteq> set (spans (fold (shrink_row E P) ys shrunk))"
proof (induction ys arbitrary: shrunk)
  case Nil
  then show ?case by simp
next
  case (Cons y ys)
  have "set (spans shrunk) \<subseteq> set (spans (shrink_row E P y shrunk))" by (rule shrink_row_mono)
  also have "\<dots> \<subseteq> set (spans (fold (shrink_row E P) ys (shrink_row E P y shrunk)))" by (rule Cons)
  finally show ?case by simp
qed

lemma shrink_row_spans:
  "\<not> int (length (filter (\<lambda>r. pr_y r = y) P)) < yRange E \<Longrightarrow>
   spans (shrink_row E P y shrunk) =
   spans shrunk @ map span_of_run (fold (good_step (filter (\<lambda>r. pr_y r = y) P) y) [0..yRange E - 1] [])"
  unfolding shrink_row_def Let_def by (simp only: if_False fold_addSpan_runs)

lemma shrink_row_keeps:
  assumes "run_facts P n y a b" "a \<le> b" "yRange E = int n" "0 < n"
  shows "\<exists>S \<in> set (spans (shrink_row E P y shrunk)). getY S = y \<and> getX0 S \<le> a \<and> b \<le> getX1 S"
proof -
  define yRuns where "yRuns = filter (\<lambda>r. pr_y r = y) P"
  have "\<forall>k < n. \<exists>r \<in> set yRuns. pr_m r = int k"
    using assms(1) unfolding run_facts_def yRuns_def by fastforce
  from enough_runs[OF this] have cnt: "\<not> int (length yRuns) < yRange E" using assms(3) by simp
  define good where "good = fold (good_step yRuns y) [0..yRange E - 1] []"
  have j: "yRange E - 1 = int (n - 1)" using assms(3,4) by simp
  have "n - 1 < n" using assms(4) by simp
  from good_fold_holds[OF assms(1,2) this] have "holds good a b"
    unfolding good_def yRuns_def j .
  then obtain r where r: "r \<in> set good" "pr_xmin r \<le> a" "b \<le> pr_xmax r"
    unfolding holds_def by blast
  have "0 \<le> yRange E - 1" using j by simp
  from good_fold_row[OF this, of yRuns y] r(1) have ry: "pr_y r = y" unfolding good_def by blast
  have sp: "spans (shrink_row E P y shrunk) = spans shrunk @ map span_of_run good"
    using shrink_row_spans[of y P E shrunk] cnt unfolding good_def yRuns_def by blast
  have "span_of_run r \<in> set (spans (shrink_row E P y shrunk))"
    unfolding sp using r(1) by simp
  moreover have "getY (span_of_run r) = y \<and> getX0 (span_of_run r) \<le> a \<and> b \<le> getX1 (span_of_run r)"
    using r(2,3) ry assms(2) by (simp add: span_of_run_def)
  ultimately show ?thesis by blast
qed

lemma run_facts_grown:
  assumes "sorted_wrt span_before gs" "valid_spans (widths E)" "getX0 s \<le> getX1 s"
    "\<forall>el \<in> set (widths E). grown_covers gs s el" "spans_small gs" "spans_small (widths E)"
  shows "run_facts (sort_runs (all_runs E gs)) (length (widths E)) (getY s) (getX0 s) (getX1 s)"
proof -
  let ?P = "sort_runs (all_runs E gs)"
  have st: "set ?P = set (all_runs E gs)" and so: "sorted (map run_key ?P)"
    using sort_runs_props[of "all_runs E gs"] by auto
  have ap: "\<forall>r \<in> set ?P. \<forall>r' \<in> set ?P. pr_y r = pr_y r' \<and> pr_m r = pr_m r' \<longrightarrow>
          pr_xmin r \<le> pr_xmax r \<and> same_or_apart r r'"
  proof (intro ballI impI)
    fix r r' assume a: "r \<in> set ?P" "r' \<in> set ?P" "pr_y r = pr_y r' \<and> pr_m r = pr_m r'"
    from runs_apart[OF assms(1,2) _ _ _ _ assms(5,6), of r r'] a st
    have "pr_xmin r \<le> pr_xmax r \<and> (r = r' \<or> pr_xmax r < pr_xmin r' \<or> pr_xmax r' < pr_xmin r)"
      by blast
    then show "pr_xmin r \<le> pr_xmax r \<and> same_or_apart r r'"
      unfolding same_or_apart_def by blast
  qed
  have cv: "\<forall>k < length (widths E). \<exists>r \<in> set ?P. pr_m r = int k \<and> pr_y r = getY s \<and>
              pr_xmin r \<le> getX0 s \<and> getX1 s \<le> pr_xmax r"
  proof (intro allI impI)
    fix k assume k: "k < length (widths E)"
    then have "grown_covers gs s (widths E ! k)" using assms(4) by simp
    from covering_run[OF this k assms(3,5,6)] show "\<exists>r \<in> set ?P. pr_m r = int k \<and> pr_y r = getY s \<and>
              pr_xmin r \<le> getX0 s \<and> getX1 s \<le> pr_xmax r" unfolding st .
  qed
  show ?thesis unfolding run_facts_def using so ap cv by blast
qed

lemma run_key_y: "sorted (map run_key P) \<Longrightarrow> sorted (map pr_y P)"
  unfolding sorted_map
  by (erule sorted_wrt_mono_rel[rotated]) (auto simp: run_key_def less_eq_prod_def)

lemma sorted_hd_le: "sorted (map (g :: 'a \<Rightarrow> int) ss) \<Longrightarrow> s \<in> set ss \<Longrightarrow> g (hd ss) \<le> g s"
  by (cases ss) auto

lemma run_facts_row:
  assumes "run_facts P n y a b" "0 < n"
  shows "P \<noteq> [] \<and> y \<in> set [pr_y (hd P)..pr_y (last P)]"
proof -
  from assms obtain r where r: "r \<in> set P" "pr_y r = y" unfolding run_facts_def by blast
  have s: "sorted (map pr_y P)" using assms(1) run_key_y unfolding run_facts_def by blast
  from sorted_hd_le[OF s r(1)] sorted_last_ge[OF s r(1)] r show ?thesis by auto
qed

lemma fold_shrink_row_ex:
  assumes "y \<in> set ys" "\<And>shrunk. \<exists>S \<in> set (spans (shrink_row E P y shrunk)). Q S"
  shows "\<exists>S \<in> set (spans (fold (shrink_row E P) ys shrunk0)). Q S"
  using assms(1)
proof (induction ys arbitrary: shrunk0)
  case Nil
  then show ?case by simp
next
  case (Cons z ys)
  show ?case
  proof (cases "z = y")
    case True
    from assms(2)[of shrunk0] obtain S where "S \<in> set (spans (shrink_row E P y shrunk0))" "Q S"
      by blast
    then show ?thesis using True fold_shrink_mono[of "shrink_row E P y shrunk0" E P ys]
      by auto
  next
    case False
    then show ?thesis using Cons by simp
  qed
qed

lemma shrinkFootprintImpl_result:
  assumes "sort_runs (all_runs E (spans g)) \<noteq> []"
    "pr_y (last (sort_runs (all_runs E (spans g)))) \<noteq> INT_MAX"
  shows "\<exists>h. shrinkFootprintImpl g E = Inr h \<and>
           pixels (spans h) =
           pixels (spans (fold (shrink_row E (sort_runs (all_runs E (spans g))))
                     [pr_y (hd (sort_runs (all_runs E (spans g))))..
                      pr_y (last (sort_runs (all_runs E (spans g))))]
                     \<lparr> spans = [], area = 0, bbox = EmptyBox, peaks = emptyPeaks minimalSchema,
                       region = region g, normalized = True \<rparr>))"
  using assms
  by (simp add: shrinkFootprintImpl_def Footprint_nspan_def all_runs_def Let_def normalize_pixels_eq)

text \<open>The erosion keeps every span all of whose translates by the element lie in the
  footprint.\<close>

lemma shrinkFootprintImpl_correct:
  assumes "sorted_wrt span_before (spans g)" "valid_spans (widths E)"
    "yRange E = int (length (widths E))" "widths E \<noteq> []"
    "getX0 s \<le> getX1 s" "\<forall>el \<in> set (widths E). grown_covers (spans g) s el"
    "spans_small (spans g)" "spans_small (widths E)"
  shows "\<exists>h. shrinkFootprintImpl g E = Inr h \<and>
           (\<forall>x. getX0 s \<le> x \<and> x \<le> getX1 s \<longrightarrow> (x, getY s) \<in> pixels (spans h))"
proof -
  define P where "P = sort_runs (all_runs E (spans g))"
  define shrunk0 where "shrunk0 = \<lparr> spans = [], area = 0, bbox = EmptyBox,
     peaks = emptyPeaks minimalSchema, region = region g, normalized = True \<rparr>"
  have n: "0 < length (widths E)" using assms(4) by simp
  have rf: "run_facts P (length (widths E)) (getY s) (getX0 s) (getX1 s)"
    unfolding P_def by (rule run_facts_grown[OF assms(1,2,5,6,7,8)])
  from run_facts_row[OF rf n] have ne: "P \<noteq> []" and row: "getY s \<in> set [pr_y (hd P)..pr_y (last P)]"
    by auto
  have "last P \<in> set (all_runs E (spans g))"
    using ne sort_runs_props[of "all_runs E (spans g)"] last_in_set[OF ne] unfolding P_def by blast
  from runs_below_INT_MAX[OF assms(7,8) this] have "pr_y (last P) \<noteq> INT_MAX" by simp
  from shrinkFootprintImpl_result[of E g] ne this obtain h where
    h: "shrinkFootprintImpl g E = Inr h"
       "pixels (spans h) = pixels (spans (fold (shrink_row E P) [pr_y (hd P)..pr_y (last P)] shrunk0))"
    unfolding P_def shrunk0_def by blast
  have "\<exists>S \<in> set (spans (shrink_row E P (getY s) shrunk)).
           getY S = getY s \<and> getX0 S \<le> getX0 s \<and> getX1 s \<le> getX1 S" for shrunk
    by (rule shrink_row_keeps[OF rf assms(5,3) n])
  from fold_shrink_row_ex[where Q = "\<lambda>S. getY S = getY s \<and> getX0 S \<le> getX0 s \<and> getX1 s \<le> getX1 S",
        OF row this, of shrunk0]
  obtain S where S: "S \<in> set (spans (fold (shrink_row E P) [pr_y (hd P)..pr_y (last P)] shrunk0))"
    "getY S = getY s" "getX0 S \<le> getX0 s" "getX1 s \<le> getX1 S" by blast
  have "(x, getY s) \<in> pixels (spans h)" if x: "getX0 s \<le> x" "x \<le> getX1 s" for x
  proof -
    have "span_contains S x (getY s)" using S(2,3,4) x by (simp add: span_contains_def)
    then show ?thesis unfolding h(2) pixels_mem using S(1) by blast
  qed
  then show ?thesis using h(1) by blast
qed

lemma small_abs: "small v \<Longrightarrow> small \<bar>v\<bar>"
  unfolding small_def by arith

lemma diamond_shape:
  assumes "0 \<le> r" "small r"
  shows "StructuringElement_shape DIAMOND r = Inr (diamond_element r)"
proof -
  have y: "int_wrap (2 * r + 1) = 2 * r + 1" "0 \<le> 2 * r + 1"
    using assms by (simp_all add: int_wrap_id small_def INT_MIN_def INT_MAX_def)
  have n: "int_wrap (- r) = - r" using assms(2) by (simp add: int_wrap_small small_def)
  have d: "Span dy (int_wrap (- int_wrap (r - int_wrap \<bar>dy\<bar>))) (int_wrap (r - int_wrap \<bar>dy\<bar>)) =
           Span dy (- (r - \<bar>dy\<bar>)) (r - \<bar>dy\<bar>)" if "dy \<in> set [- r..r]" for dy
  proof -
    have b: "- r \<le> dy" "dy \<le> r" using that by simp_all
    have s: "small \<bar>dy\<bar>" "small (r - \<bar>dy\<bar>)" "small (- (r - \<bar>dy\<bar>))"
      using b assms unfolding small_def by arith+
    show ?thesis by (simp only: int_wrap_small[OF s(1)] int_wrap_small[OF s(2)] int_wrap_small[OF s(3)])
  qed
  have m: "map (\<lambda>dy. Span dy (int_wrap (- int_wrap (r - int_wrap \<bar>dy\<bar>))) (int_wrap (r - int_wrap \<bar>dy\<bar>)))
             [- r..r] =
           map (\<lambda>dy. Span dy (- (r - \<bar>dy\<bar>)) (r - \<bar>dy\<bar>)) [- r..r]"
    by (rule map_cong[OF refl]) (rule d)
  have "StructuringElement_shape DIAMOND r =
        Inr \<lparr> widths = map (\<lambda>dy. Span dy (int_wrap (- int_wrap (r - int_wrap \<bar>dy\<bar>)))
                                         (int_wrap (r - int_wrap \<bar>dy\<bar>))) [- r..r],
              yRange = 2 * r + 1 \<rparr>"
    unfolding StructuringElement_shape_def Let_def y n using y(2) by (simp only: if_False not_less[symmetric] Shape.case)
  then show ?thesis unfolding m diamond_element_def .
qed

lemma diamond_valid: "valid_spans (widths (diamond_element r))"
  unfolding diamond_element_def valid_spans_def by auto

lemma diamond_rows:
  assumes "0 < r"
  shows "yRange (diamond_element r) = int (length (widths (diamond_element r)))"
    and "widths (diamond_element r) \<noteq> []"
  using assms by (simp_all add: diamond_element_def)

lemma diamond_small: "small r \<Longrightarrow> 0 \<le> r \<Longrightarrow> spans_small (widths (diamond_element r))"
  by (auto simp: diamond_element_def spans_small_def span_small_def small_def)

lemma diamond_sums:
  assumes "small (getX0 s - r)" "small (getX1 s + r)" "small (getY s - r)" "small (getY s + r)"
    "getX0 s \<le> getX1 s" "el \<in> set (widths (diamond_element r))"
  shows "sums_small s el"
proof -
  from assms(6) obtain dy where dy: "- r \<le> dy" "dy \<le> r" "el = Span dy (- (r - \<bar>dy\<bar>)) (r - \<bar>dy\<bar>)"
    by (auto simp: diamond_element_def)
  show ?thesis using assms(1-5) dy unfolding sums_small_def small_def by auto
qed

lemma widths_positive:
  "valid_spans ss \<Longrightarrow> ss \<noteq> [] \<Longrightarrow> 0 < sum_list (map getWidth ss)"
proof (induction ss)
  case Nil
  then show ?case by simp
next
  case (Cons s ss)
  have w: "0 < getWidth s" using Cons.prems(1) by (simp add: valid_spans_def getWidth_def)
  show ?case
  proof (cases "ss = []")
    case True
    then show ?thesis using w by simp
  next
    case False
    then have "0 < sum_list (map getWidth ss)" using Cons by (simp add: valid_spans_def)
    then show ?thesis using w by simp
  qed
qed

text \<open>
  Claim C4, as amended. For every normalized, non-empty footprint (spans with their
  columns in order, an area that is an \<open>int\<close>) and every radius \<open>r > 0\<close> such that every
  coordinate moved by \<open>r\<close> either way lies strictly between \<open>- 2 ^ 30\<close> and \<open>2 ^ 30\<close>,
  \<open>growFootprint\<close> with the diamond element returns a footprint, \<open>shrinkFootprint\<close> of that
  footprint by \<open>r\<close> with the diamond element returns a footprint, and the pixel set of the
  latter contains the pixel set of the original.
\<close>

theorem grow_then_shrink_contains:
  assumes "is_normal f" "valid_spans (spans f)" "spans f \<noteq> []" "0 < r"
    "within_reach r (spans f)" "area f \<le> INT_MAX"
  shows "\<exists>g h. growFootprint f r False = Inr g \<and> shrinkFootprint g r False = Inr h \<and>
               pixels (spans f) \<subseteq> pixels (spans h)"
proof -
  let ?E = "diamond_element r"
  from assms(3) obtain s0 where s0: "s0 \<in> set (spans f)" by (cases "spans f") auto
  have "small (getX0 s0 - r)" "small (getX1 s0 + r)" "getX0 s0 \<le> getX1 s0"
    using assms(2,5) s0 by (simp_all add: within_reach_def valid_spans_def)
  then have sr: "small r" using assms(4) by (simp add: small_def)
  have el: "StructuringElement_shape DIAMOND r = Inr ?E" using diamond_shape[OF _ sr] assms(4) by simp
  have se: "spans_small (widths ?E)" using diamond_small[OF sr] assms(4) by simp
  have ss: "\<forall>s \<in> set (spans f). \<forall>el \<in> set (widths ?E). sums_small s el"
  proof (intro ballI)
    fix s el assume s: "s \<in> set (spans f)" and e: "el \<in> set (widths ?E)"
    have "small (getX0 s - r)" "small (getX1 s + r)" "small (getY s - r)" "small (getY s + r)"
      "getX0 s \<le> getX1 s"
      using assms(2,5) s by (simp_all add: within_reach_def valid_spans_def)
    then show "sums_small s el" using e by (rule diamond_sums)
  qed
  have "0 < area f" using assms(1) widths_positive[OF assms(2,3)] by (simp add: is_normal_def)
  then have gr: "growFootprint f r False = growFootprintImpl f ?E"
    using assms(4) el by (simp add: growFootprint_def)
  from growFootprintImpl_correct[OF assms(2) diamond_valid ss] obtain g where
    g: "growFootprintImpl f ?E = Inr g" "sorted_wrt span_before (spans g)"
       "\<forall>t \<in> set (spans g). span_small t"
       "\<forall>s \<in> set (spans f). \<forall>el \<in> set (widths ?E). grown_covers (spans g) s el" by blast
  have sg: "spans_small (spans g)" using g(3) by (simp add: spans_small_def)
  have keep: "\<exists>h. shrinkFootprintImpl g ?E = Inr h \<and>
           (\<forall>x. getX0 s \<le> x \<and> x \<le> getX1 s \<longrightarrow> (x, getY s) \<in> pixels (spans h))"
    if s: "s \<in> set (spans f)" for s
  proof -
    have v: "getX0 s \<le> getX1 s" using assms(2) s by (simp add: valid_spans_def)
    have c: "\<forall>el \<in> set (widths ?E). grown_covers (spans g) s el" using g(4) s by blast
    show ?thesis
      by (rule shrinkFootprintImpl_correct[OF g(2) diamond_valid diamond_rows[OF assms(4)] v c sg se])
  qed
  from keep[OF s0] obtain h where h: "shrinkFootprintImpl g ?E = Inr h" by blast
  have "pixels (spans f) \<subseteq> pixels (spans h)"
  proof
    fix p assume p: "p \<in> pixels (spans f)"
    obtain x y where xy: "p = (x, y)" by (cases p)
    from p obtain s where s: "s \<in> set (spans f)" "span_contains s x y"
      unfolding xy pixels_mem by blast
    from keep[OF s(1)] h have "\<forall>x. getX0 s \<le> x \<and> x \<le> getX1 s \<longrightarrow> (x, getY s) \<in> pixels (spans h)"
      by simp
    then show "p \<in> pixels (spans h)" using s(2) unfolding xy by (simp add: span_contains_def)
  qed
  then show ?thesis using gr g(1) h el by (simp add: shrinkFootprint_def)
qed

theorem grow_then_shrink_contains_witness:
  "growFootprint strip_footprint 1 False = Inr grown_strip \<and>
   shrinkFootprint grown_strip 1 False = Inr strip_footprint \<and>
   (\<exists>g h. growFootprint strip_footprint 1 False = Inr g \<and> shrinkFootprint g 1 False = Inr h \<and>
          pixels (spans strip_footprint) \<subseteq> pixels (spans h))"
proof -
  have n: "is_normal strip_footprint"
    by (simp add: is_normal_def strip_footprint_def row_separated_def tight_bbox_def getWidth_def)
  have v: "valid_spans (spans strip_footprint)"
    by (simp add: valid_spans_def strip_footprint_def)
  have e: "spans strip_footprint \<noteq> []" by (simp add: strip_footprint_def)
  have w: "within_reach 1 (spans strip_footprint)"
    by (simp add: strip_footprint_def within_reach_def small_def)
  have a: "area strip_footprint \<le> INT_MAX" by (simp add: strip_footprint_def INT_MAX_def)
  have g: "growFootprint strip_footprint 1 False = Inr grown_strip" by code_simp
  have h: "shrinkFootprint grown_strip 1 False = Inr strip_footprint" by code_simp
  show ?thesis using grow_then_shrink_contains[OF n v e _ w a] g h by simp
qed

text \<open>
  Claim C4 as stated fails at the end of the \<open>int\<close> range: the footprint below is
  normalized and not empty, and its dilation by the diamond of radius 1 puts the pair
  \<open>(INT_MAX - 3, INT_MAX)\<close> after the pair \<open>(- 1, 4)\<close> in row 0; the test
  \<open>first \<le> end + 1\<close> wraps around, the loop over the row steps back to the same pair for
  ever and \<open>growFootprint\<close> does not return.
\<close>

theorem growFootprint_edge_counterexample:
  "is_normal rightmost_footprint \<and> normalized rightmost_footprint \<and>
   spans rightmost_footprint \<noteq> [] \<and>
   growFootprint rightmost_footprint 1 False = Inl DoesNotReturn"
proof -
  have n: "is_normal rightmost_footprint"
    by (simp add: is_normal_def rightmost_footprint_def row_separated_def tight_bbox_def
        getWidth_def span_key_def less_eq_prod_def)
  have g: "growFootprint rightmost_footprint 1 False = Inl DoesNotReturn" by code_simp
  show ?thesis using n g by (simp add: rightmost_footprint_def)
qed

end
